theory Spec2Isabelle
  imports Complex_Main
begin

section \<open>Conway's Game of Life (game_of_life.py): the model\<close>

text \<open>
  The program is one Python class, \<^verbatim>\<open>GameOfLife\<close>, and two module-level
  functions that seed patterns. Its methods mutate the object in place; the model
  passes the object explicitly and returns the updated one. Everything that can raise
  in Python (a division by zero, a numpy index out of range, a negative array
  dimension) returns \<open>Inl\<close> of an error; \<open>Inr\<close> is normal completion.

  Python integers are unbounded and are modelled by \<open>int\<close>; \<open>div\<close> and \<open>mod\<close> on
  \<open>int\<close> round towards minus infinity as Python's \<^verbatim>\<open>//\<close> and \<^verbatim>\<open>%\<close> do.
  The numpy array \<^verbatim>\<open>self.grid\<close> (dtype int, shape rows by cols) is a list of
  rows, each a list of cells. Of pygame, the opening of the window is modelled as
  far as it can fail on its arguments; drawing and the clock are not modelled: they
  read the state and never write it.
\<close>

subsection \<open>Errors\<close>

datatype error = ZeroDivisionError | IndexError | ValueError | PygameError

definition ebind :: "error + 'a \<Rightarrow> ('a \<Rightarrow> error + 'b) \<Rightarrow> error + 'b" where
  "ebind m f = (case m of Inl e \<Rightarrow> Inl e | Inr x \<Rightarrow> f x)"

definition py_floordiv :: "int \<Rightarrow> int \<Rightarrow> error + int" where
  "py_floordiv a b = (if b = 0 then Inl ZeroDivisionError else Inr (a div b))"

definition py_mod :: "int \<Rightarrow> int \<Rightarrow> error + int" where
  "py_mod a b = (if b = 0 then Inl ZeroDivisionError else Inr (a mod b))"

text \<open>\<^verbatim>\<open>range(n)\<close> and \<^verbatim>\<open>range(-1, 2)\<close>.\<close>

definition range :: "int \<Rightarrow> int list" where
  "range n = [0..n - 1]"

definition range2 :: "int \<Rightarrow> int \<Rightarrow> int list" where
  "range2 a b = [a..b - 1]"

subsection \<open>numpy arrays of two dimensions\<close>

text \<open>
  An index \<open>i\<close> on an axis of size \<open>n\<close> is valid when \<open>-n \<le> i < n\<close>; a negative
  index counts from the end; anything else raises IndexError.
\<close>

definition np_index :: "nat \<Rightarrow> int \<Rightarrow> error + nat" where
  "np_index n i =
     (if 0 \<le> i \<and> i < int n then Inr (nat i)
      else if - int n \<le> i \<and> i < 0 then Inr (nat (int n + i))
      else Inl IndexError)"

text \<open>\<^verbatim>\<open>np.zeros((rows, cols), dtype=int)\<close>: a negative dimension raises ValueError.\<close>

definition np_zeros :: "int \<Rightarrow> int \<Rightarrow> error + int list list" where
  "np_zeros r c =
     (if r < 0 \<or> c < 0 then Inl ValueError
      else Inr (replicate (nat r) (replicate (nat c) 0)))"

text \<open>\<^verbatim>\<open>a[r][c]\<close> and \<^verbatim>\<open>a[r][c] = v\<close>.\<close>

definition np_get :: "int list list \<Rightarrow> int \<Rightarrow> int \<Rightarrow> error + int" where
  "np_get a r c =
     ebind (np_index (length a) r) (\<lambda>r'.
     ebind (np_index (length (a ! r')) c) (\<lambda>c'.
     Inr (a ! r' ! c')))"

definition np_set :: "int list list \<Rightarrow> int \<Rightarrow> int \<Rightarrow> int \<Rightarrow> error + int list list" where
  "np_set a r c v =
     ebind (np_index (length a) r) (\<lambda>r'.
     ebind (np_index (length (a ! r')) c) (\<lambda>c'.
     Inr (a[r' := (a ! r')[c' := v]])))"

subsection \<open>The object\<close>

text \<open>
  The fields of \<^verbatim>\<open>GameOfLife\<close> that the simulation reads or writes. The last two
  are not attributes of the object: they are the process state its methods touch,
  namely how many numbers have been drawn from \<^verbatim>\<open>random.random()\<close> and the
  lines printed by \<^verbatim>\<open>handle_mouse_click\<close> (row, column, new value), newest last.
\<close>

record game =
  width :: int
  height :: int
  cell_size :: int
  cols :: int
  rows :: int
  grid :: "int list list"
  running :: bool
  paused :: bool
  generation :: int
  rand_calls :: nat
  stdout :: "(int \<times> int \<times> int) list"

text \<open>
  \<^verbatim>\<open>pygame.display.set_mode((width, height))\<close> raises \<^verbatim>\<open>pygame.error\<close> when the
  width or the height is negative. Whether a window can be opened at all depends on
  the machine and is not part of the model.
\<close>

definition set_mode :: "int \<Rightarrow> int \<Rightarrow> error + unit" where
  "set_mode w h = (if w < 0 \<or> h < 0 then Inl PygameError else Inr ())"

text \<open>
  \<^verbatim>\<open>__init__\<close>: the two divisions, then the window, then the allocation of the grid.
\<close>

definition init :: "int \<Rightarrow> int \<Rightarrow> int \<Rightarrow> error + game" where
  "init w h cs =
     ebind (py_floordiv w cs) (\<lambda>c.
     ebind (py_floordiv h cs) (\<lambda>r.
     ebind (set_mode w h) (\<lambda>screen.
     ebind (np_zeros r c) (\<lambda>a.
     Inr \<lparr>width = w, height = h, cell_size = cs, cols = c, rows = r, grid = a,
          running = True, paused = False, generation = 0, rand_calls = 0, stdout = []\<rparr>))))"

subsection \<open>randomize_grid and clear_grid\<close>

text \<open>
  The random source is a fixed sequence \<open>rnd\<close> of numbers in \<open>[0, 1)\<close>; the
  \<open>k\<close>-th call of \<^verbatim>\<open>random.random()\<close> returns \<open>rnd k\<close>.
\<close>

fun randomize_cols :: "(nat \<Rightarrow> real) \<Rightarrow> real \<Rightarrow> game \<Rightarrow> int \<Rightarrow> int list \<Rightarrow> error + game" where
  "randomize_cols rnd density g i [] = Inr g"
| "randomize_cols rnd density g i (j # js) =
     ebind (np_set (grid g) i j (if rnd (rand_calls g) < density then 1 else 0)) (\<lambda>a.
     randomize_cols rnd density (g\<lparr>grid := a, rand_calls := Suc (rand_calls g)\<rparr>) i js)"

fun randomize_rows :: "(nat \<Rightarrow> real) \<Rightarrow> real \<Rightarrow> game \<Rightarrow> int list \<Rightarrow> error + game" where
  "randomize_rows rnd density g [] = Inr g"
| "randomize_rows rnd density g (i # is) =
     ebind (randomize_cols rnd density g i (range (cols g))) (\<lambda>g'.
     randomize_rows rnd density g' is)"

definition randomize_grid :: "(nat \<Rightarrow> real) \<Rightarrow> real \<Rightarrow> game \<Rightarrow> error + game" where
  "randomize_grid rnd density g =
     ebind (randomize_rows rnd density g (range (rows g))) (\<lambda>g'.
     Inr (g'\<lparr>generation := 0\<rparr>))"

definition clear_grid :: "game \<Rightarrow> error + game" where
  "clear_grid g =
     ebind (np_zeros (rows g) (cols g)) (\<lambda>a.
     Inr (g\<lparr>grid := a, generation := 0\<rparr>))"

subsection \<open>count_neighbors\<close>

fun count_cols :: "game \<Rightarrow> int \<Rightarrow> int \<Rightarrow> int \<Rightarrow> int list \<Rightarrow> int \<Rightarrow> error + int" where
  "count_cols g row col i [] count = Inr count"
| "count_cols g row col i (j # js) count =
     (if i = 0 \<and> j = 0 then count_cols g row col i js count
      else
        ebind (py_mod (row + i) (rows g)) (\<lambda>neighbor_row.
        ebind (py_mod (col + j) (cols g)) (\<lambda>neighbor_col.
        ebind (np_get (grid g) neighbor_row neighbor_col) (\<lambda>v.
        count_cols g row col i js (count + v)))))"

fun count_rows :: "game \<Rightarrow> int \<Rightarrow> int \<Rightarrow> int list \<Rightarrow> int \<Rightarrow> error + int" where
  "count_rows g row col [] count = Inr count"
| "count_rows g row col (i # is) count =
     ebind (count_cols g row col i (range2 (-1) 2) count) (\<lambda>count'.
     count_rows g row col is count')"

definition count_neighbors :: "game \<Rightarrow> int \<Rightarrow> int \<Rightarrow> error + int" where
  "count_neighbors g row col = count_rows g row col (range2 (-1) 2) 0"

subsection \<open>update_grid\<close>

text \<open>
  The loops write into \<open>new_grid\<close>, a fresh array of zeros, and read \<^verbatim>\<open>self.grid\<close>,
  which is replaced only after the loops.
\<close>

fun update_cols :: "game \<Rightarrow> int list list \<Rightarrow> int \<Rightarrow> int list \<Rightarrow> error + int list list" where
  "update_cols g new_grid i [] = Inr new_grid"
| "update_cols g new_grid i (j # js) =
     ebind (count_neighbors g i j) (\<lambda>neighbors.
     ebind (np_get (grid g) i j) (\<lambda>v.
     if v = 1 then
       (if neighbors = 2 \<or> neighbors = 3
        then ebind (np_set new_grid i j 1) (\<lambda>a. update_cols g a i js)
        else update_cols g new_grid i js)
     else
       (if neighbors = 3
        then ebind (np_set new_grid i j 1) (\<lambda>a. update_cols g a i js)
        else update_cols g new_grid i js)))"

fun update_rows :: "game \<Rightarrow> int list list \<Rightarrow> int list \<Rightarrow> error + int list list" where
  "update_rows g new_grid [] = Inr new_grid"
| "update_rows g new_grid (i # is) =
     ebind (update_cols g new_grid i (range (cols g))) (\<lambda>a.
     update_rows g a is)"

definition update_grid :: "game \<Rightarrow> error + game" where
  "update_grid g =
     ebind (np_zeros (rows g) (cols g)) (\<lambda>new_grid.
     ebind (update_rows g new_grid (range (rows g))) (\<lambda>a.
     Inr (g\<lparr>grid := a, generation := generation g + 1\<rparr>)))"

subsection \<open>handle_mouse_click\<close>

definition handle_mouse_click :: "game \<Rightarrow> int \<times> int \<Rightarrow> error + game" where
  "handle_mouse_click g pos =
     (case pos of (x, y) \<Rightarrow>
     ebind (py_floordiv x (cell_size g)) (\<lambda>col.
     ebind (py_floordiv y (cell_size g)) (\<lambda>row.
     if 0 \<le> row \<and> row < rows g \<and> 0 \<le> col \<and> col < cols g then
       ebind (np_get (grid g) row col) (\<lambda>v.
       ebind (np_set (grid g) row col (1 - v)) (\<lambda>a.
       ebind (np_get a row col) (\<lambda>v'.
       Inr (g\<lparr>grid := a, stdout := stdout g @ [(row, col, v')]\<rparr>))))
     else Inr g)))"

subsection \<open>The main loop\<close>

datatype key = K_SPACE | K_r | K_c | K_ESCAPE | K_other

datatype event =
    QUIT
  | KEYDOWN key
  | MOUSEBUTTONDOWN int "int \<times> int"
  | OTHER_EVENT

text \<open>The body of \<^verbatim>\<open>for event in pygame.event.get()\<close>, for one event.\<close>

fun handle_event :: "(nat \<Rightarrow> real) \<Rightarrow> game \<Rightarrow> event \<Rightarrow> error + game" where
  "handle_event rnd g QUIT = Inr (g\<lparr>running := False\<rparr>)"
| "handle_event rnd g (KEYDOWN K_SPACE) = Inr (g\<lparr>paused := \<not> paused g\<rparr>)"
| "handle_event rnd g (KEYDOWN K_r) = randomize_grid rnd (3 / 10) g"
| "handle_event rnd g (KEYDOWN K_c) = clear_grid g"
| "handle_event rnd g (KEYDOWN K_ESCAPE) = Inr (g\<lparr>running := False\<rparr>)"
| "handle_event rnd g (KEYDOWN K_other) = Inr g"
| "handle_event rnd g (MOUSEBUTTONDOWN button pos) =
     (if button = 1 then handle_mouse_click g pos else Inr g)"
| "handle_event rnd g OTHER_EVENT = Inr g"

fun dispatch :: "(nat \<Rightarrow> real) \<Rightarrow> game \<Rightarrow> event list \<Rightarrow> error + game" where
  "dispatch rnd g [] = Inr g"
| "dispatch rnd g (ev # evs) = ebind (handle_event rnd g ev) (\<lambda>g'. dispatch rnd g' evs)"

text \<open>One pass through the body of \<^verbatim>\<open>while self.running\<close>, on one batch of events.\<close>

definition frame :: "(nat \<Rightarrow> real) \<Rightarrow> game \<Rightarrow> event list \<Rightarrow> error + game" where
  "frame rnd g evs =
     ebind (dispatch rnd g evs) (\<lambda>g'.
     if \<not> paused g' then update_grid g' else Inr g')"

text \<open>
  \<^verbatim>\<open>run\<close> on the batches that \<^verbatim>\<open>pygame.event.get()\<close> returns frame after
  frame. The loop ends when \<open>running\<close> is false at the top of an iteration; the
  result then has \<open>running\<close> false. When the batches are used up first, the result is
  the state reached, with \<open>running\<close> still true.
\<close>

fun run :: "(nat \<Rightarrow> real) \<Rightarrow> game \<Rightarrow> event list list \<Rightarrow> error + game" where
  "run rnd g [] = Inr g"
| "run rnd g (evs # batches) =
     (if running g then ebind (frame rnd g evs) (\<lambda>g'. run rnd g' batches) else Inr g)"

subsection \<open>Pattern seeding\<close>

definition glider :: "int list list" where
  "glider = [[0, 1, 0], [0, 0, 1], [1, 1, 1]]"

definition blinker :: "int list list" where
  "blinker = [[1, 1, 1]]"

text \<open>
  The two nested \<^verbatim>\<open>for ... in enumerate(...)\<close> loops, which \<^verbatim>\<open>create_glider\<close>
  and \<^verbatim>\<open>create_blinker\<close> share word for word; \<open>i\<close> and \<open>j\<close> are the counters
  of \<^verbatim>\<open>enumerate\<close>.
\<close>

fun seed_cols :: "game \<Rightarrow> int \<Rightarrow> int \<Rightarrow> int \<Rightarrow> int \<Rightarrow> int list \<Rightarrow> error + game" where
  "seed_cols g start_row start_col i j [] = Inr g"
| "seed_cols g start_row start_col i j (cell # cells) =
     (if start_row + i < rows g \<and> start_col + j < cols g then
        ebind (np_set (grid g) (start_row + i) (start_col + j) cell) (\<lambda>a.
        seed_cols (g\<lparr>grid := a\<rparr>) start_row start_col i (j + 1) cells)
      else seed_cols g start_row start_col i (j + 1) cells)"

fun seed_rows :: "game \<Rightarrow> int \<Rightarrow> int \<Rightarrow> int \<Rightarrow> int list list \<Rightarrow> error + game" where
  "seed_rows g start_row start_col i [] = Inr g"
| "seed_rows g start_row start_col i (row # rest) =
     ebind (seed_cols g start_row start_col i 0 row) (\<lambda>g'.
     seed_rows g' start_row start_col (i + 1) rest)"

definition create_glider :: "game \<Rightarrow> int \<Rightarrow> int \<Rightarrow> error + game" where
  "create_glider g start_row start_col = seed_rows g start_row start_col 0 glider"

definition create_blinker :: "game \<Rightarrow> int \<Rightarrow> int \<Rightarrow> error + game" where
  "create_blinker g start_row start_col = seed_rows g start_row start_col 0 blinker"

subsection \<open>Well-formed objects\<close>

text \<open>
  What \<^verbatim>\<open>__init__\<close> establishes and every method keeps: the array has the shape
  \<open>rows\<close> by \<open>cols\<close> with \<open>cols\<close> not negative, every cell is 0 (dead) or 1 (alive),
  and \<open>cell_size\<close> is not zero.
\<close>

definition shape_ok :: "int list list \<Rightarrow> int \<Rightarrow> int \<Rightarrow> bool" where
  "shape_ok a r c \<longleftrightarrow> int (length a) = r \<and> list_all (\<lambda>row. int (length row) = c) a"

definition cells_ok :: "int list list \<Rightarrow> bool" where
  "cells_ok a \<longleftrightarrow> list_all (list_all (\<lambda>v. v = 0 \<or> v = 1)) a"

definition wf_game :: "game \<Rightarrow> bool" where
  "wf_game g \<longleftrightarrow>
     cell_size g \<noteq> 0 \<and> 0 \<le> cols g \<and> shape_ok (grid g) (rows g) (cols g) \<and>
     cells_ok (grid g)"

subsection \<open>The neighbour count as the specification words it\<close>

text \<open>
  The eight offsets \<open>(di, dj)\<close> with \<open>di, dj \<in> {-1, 0, 1}\<close>, without \<open>(0, 0)\<close>, and
  the number of them whose cell \<open>((row + di) mod rows, (col + dj) mod cols)\<close> is alive.
\<close>

definition neighbor_offsets :: "(int \<times> int) list" where
  "neighbor_offsets = [(-1, -1), (-1, 0), (-1, 1), (0, -1), (0, 1), (1, -1), (1, 0), (1, 1)]"

definition spec_neighbor_count :: "game \<Rightarrow> int \<Rightarrow> int \<Rightarrow> nat" where
  "spec_neighbor_count g row col =
     length (filter (\<lambda>(di, dj).
       np_get (grid g) ((row + di) mod rows g) ((col + dj) mod cols g) = Inr 1) neighbor_offsets)"

text \<open>The rule of the specification for one cell: its value in the next generation.\<close>

definition spec_next_cell :: "game \<Rightarrow> int \<Rightarrow> int \<Rightarrow> int" where
  "spec_next_cell g row col =
     (if np_get (grid g) row col = Inr 1
      then (if spec_neighbor_count g row col = 2 \<or> spec_neighbor_count g row col = 3
            then 1 else 0)
      else (if spec_neighbor_count g row col = 3 then 1 else 0))"

definition spec_next_grid :: "game \<Rightarrow> int list list" where
  "spec_next_grid g =
     map (\<lambda>row. map (\<lambda>col. spec_next_cell g row col) (range (cols g))) (range (rows g))"

subsection \<open>Pattern seeding as the specification words it\<close>

text \<open>
  The writes of a seeding, in the order of the loops: template cell \<open>(i, j)\<close> is
  written iff \<open>start_row + i < rows\<close> and \<open>start_col + j < cols\<close>, at its row and column
  when these are not negative and counted from the end of the grid when they are.
  \<open>apply_writes\<close> performs a list of writes from first to last.
\<close>

definition wrap_index :: "int \<Rightarrow> int \<Rightarrow> nat" where
  "wrap_index n x = nat (if x < 0 then n + x else x)"

definition spec_row_writes ::
  "game \<Rightarrow> int \<Rightarrow> int \<Rightarrow> nat \<Rightarrow> nat \<Rightarrow> int list \<Rightarrow> ((nat \<times> nat) \<times> int) list" where
  "spec_row_writes g start_row start_col i n cells =
     concat (map (\<lambda>(j, cell).
       if start_row + int i < rows g \<and> start_col + int j < cols g
       then [((wrap_index (rows g) (start_row + int i),
               wrap_index (cols g) (start_col + int j)), cell)]
       else []) (enumerate n cells))"

definition spec_writes ::
  "game \<Rightarrow> nat \<Rightarrow> int list list \<Rightarrow> int \<Rightarrow> int \<Rightarrow> ((nat \<times> nat) \<times> int) list" where
  "spec_writes g n template start_row start_col =
     concat (map (\<lambda>(i, row). spec_row_writes g start_row start_col i 0 row)
       (enumerate n template))"

definition apply_writes :: "((nat \<times> nat) \<times> int) list \<Rightarrow> int list list \<Rightarrow> int list list" where
  "apply_writes ws a = fold (\<lambda>((r, c), v) b. b[r := (b ! r)[c := v]]) ws a"

subsection \<open>Patterns on the torus\<close>

text \<open>
  The grid of \<open>R\<close> rows and \<open>C\<close> columns that holds a copy of \<open>template\<close> with its top
  left corner at \<open>(r0, c0)\<close>, rows and columns taken modulo \<open>R\<close> and \<open>C\<close>, and dead
  cells everywhere else.
\<close>

definition pattern_at :: "int list list \<Rightarrow> int \<Rightarrow> int \<Rightarrow> int \<Rightarrow> int \<Rightarrow> int list list" where
  "pattern_at template R C r0 c0 =
     map (\<lambda>i. map (\<lambda>j.
       if (i - r0) mod R < int (length template) \<and>
          (j - c0) mod C < int (length (template ! nat ((i - r0) mod R)))
       then template ! nat ((i - r0) mod R) ! nat ((j - c0) mod C) else 0)
       (range C)) (range R)"

text \<open>
  The same for a set of alive cells given by a predicate \<open>q\<close> on offsets, and the rule
  of the game on the unbounded plane, for a set of alive cells \<open>q\<close>.
\<close>

definition torus_of :: "(int \<Rightarrow> int \<Rightarrow> bool) \<Rightarrow> int \<Rightarrow> int \<Rightarrow> int \<Rightarrow> int \<Rightarrow> int list list" where
  "torus_of q R C r0 c0 =
     map (\<lambda>i. map (\<lambda>j. if q ((i - r0) mod R) ((j - c0) mod C) then 1 else 0)
       (range C)) (range R)"

definition cells_of :: "(int \<times> int) list \<Rightarrow> int \<Rightarrow> int \<Rightarrow> bool" where
  "cells_of Q x y \<longleftrightarrow> (x, y) \<in> set Q"

definition plane_count :: "(int \<Rightarrow> int \<Rightarrow> bool) \<Rightarrow> int \<Rightarrow> int \<Rightarrow> nat" where
  "plane_count q a b = length (filter (\<lambda>(di, dj). q (a + di) (b + dj)) neighbor_offsets)"

definition plane_next :: "(int \<Rightarrow> int \<Rightarrow> bool) \<Rightarrow> int \<Rightarrow> int \<Rightarrow> bool" where
  "plane_next q a b =
     (if q a b then plane_count q a b = 2 \<or> plane_count q a b = 3
      else plane_count q a b = 3)"

text \<open>
  The four phases of the glider, each placed in the window of rows and columns 1
  to 3; \<open>shift\<close> moves a list of cells.
\<close>

definition phase0 :: "(int \<times> int) list" where
  "phase0 = [(1, 2), (2, 3), (3, 1), (3, 2), (3, 3)]"

definition phase1 :: "(int \<times> int) list" where
  "phase1 = [(1, 1), (1, 3), (2, 2), (2, 3), (3, 2)]"

definition phase2 :: "(int \<times> int) list" where
  "phase2 = [(1, 3), (2, 1), (2, 3), (3, 2), (3, 3)]"

definition phase3 :: "(int \<times> int) list" where
  "phase3 = [(1, 1), (2, 2), (2, 3), (3, 1), (3, 2)]"

definition in_window :: "(int \<times> int) list \<Rightarrow> bool" where
  "in_window Q \<longleftrightarrow> list_all (\<lambda>(x, y). 1 \<le> x \<and> x \<le> 3 \<and> 1 \<le> y \<and> y \<le> 3) Q"

definition shift :: "int \<Rightarrow> int \<Rightarrow> (int \<times> int) list \<Rightarrow> (int \<times> int) list" where
  "shift s t Q = map (\<lambda>(x, y). (x + s, y + t)) Q"

subsection \<open>Sequences of operations\<close>

text \<open>
  The operations a caller can apply to the object between construction and the end
  of the program, and a sequence of them run in order; the first error ends the run.
\<close>

datatype operation =
    Step
  | Randomize real
  | Clear
  | Click "int \<times> int"
  | Glider int int
  | Blinker int int

fun apply_operation :: "(nat \<Rightarrow> real) \<Rightarrow> game \<Rightarrow> operation \<Rightarrow> error + game" where
  "apply_operation rnd g Step = update_grid g"
| "apply_operation rnd g (Randomize density) = randomize_grid rnd density g"
| "apply_operation rnd g Clear = clear_grid g"
| "apply_operation rnd g (Click pos) = handle_mouse_click g pos"
| "apply_operation rnd g (Glider start_row start_col) = create_glider g start_row start_col"
| "apply_operation rnd g (Blinker start_row start_col) = create_blinker g start_row start_col"

fun apply_operations :: "(nat \<Rightarrow> real) \<Rightarrow> game \<Rightarrow> operation list \<Rightarrow> error + game" where
  "apply_operations rnd g [] = Inr g"
| "apply_operations rnd g (x # xs) =
     ebind (apply_operation rnd g x) (\<lambda>g'. apply_operations rnd g' xs)"

subsection \<open>Objects for examples\<close>

text \<open>The object with cell size \<open>cs\<close> whose grid is \<open>a\<close>, as it is before the first frame.\<close>

definition example :: "int \<Rightarrow> int list list \<Rightarrow> game" where
  "example cs a =
     (let c = (case a of [] \<Rightarrow> 0 | r # _ \<Rightarrow> int (length r)) in
      \<lparr>width = cs * c, height = cs * int (length a), cell_size = cs, cols = c,
       rows = int (length a), grid = a, running = True, paused = False, generation = 0,
       rand_calls = 0, stdout = []\<rparr>)"

section \<open>Basic facts\<close>

lemma ebind_Inr [simp]: "ebind (Inr x) f = f x"
  by (simp add: ebind_def)

lemma ebind_Inl [simp]: "ebind (Inl e) f = Inl e"
  by (simp add: ebind_def)

lemma np_index_in: "0 \<le> i \<Longrightarrow> i < int n \<Longrightarrow> np_index n i = Inr (nat i)"
  by (simp add: np_index_def)

lemma np_get_in:
  "0 \<le> r \<Longrightarrow> r < int (length a) \<Longrightarrow> 0 \<le> c \<Longrightarrow> c < int (length (a ! nat r)) \<Longrightarrow>
   np_get a r c = Inr (a ! nat r ! nat c)"
  by (simp add: np_get_def np_index_in)

lemma np_set_in:
  "0 \<le> r \<Longrightarrow> r < int (length a) \<Longrightarrow> 0 \<le> c \<Longrightarrow> c < int (length (a ! nat r)) \<Longrightarrow>
   np_set a r c v = Inr (a[nat r := (a ! nat r)[nat c := v]])"
  by (simp add: np_set_def np_index_in)

lemma shape_ok_row:
  "shape_ok a r c \<Longrightarrow> 0 \<le> i \<Longrightarrow> i < r \<Longrightarrow> int (length (a ! nat i)) = c"
  by (auto simp: shape_ok_def list_all_length)

lemma shape_ok_length: "shape_ok a r c \<Longrightarrow> int (length a) = r"
  by (simp add: shape_ok_def)

lemma shape_ok_update:
  "shape_ok a r c \<Longrightarrow> 0 \<le> i \<Longrightarrow> i < r \<Longrightarrow>
   shape_ok (a[nat i := (a ! nat i)[nat j := v]]) r c"
  by (auto simp: shape_ok_def list_all_length nth_list_update)

lemma list_all_update: "list_all P xs \<Longrightarrow> P v \<Longrightarrow> list_all P (xs[m := v])"
  by (induction xs arbitrary: m) (auto split: nat.splits)

lemma cells_ok_update:
  "cells_ok a \<Longrightarrow> v = 0 \<or> v = 1 \<Longrightarrow> cells_ok (a[n := (a ! n)[m := v]])"
proof (cases "n < length a")
  case True
  assume a: "cells_ok a" and v: "v = 0 \<or> v = 1"
  from a True have "list_all (\<lambda>v. v = 0 \<or> v = 1) (a ! n)"
    by (simp add: cells_ok_def list_all_length)
  with v have "list_all (\<lambda>v. v = 0 \<or> v = 1) ((a ! n)[m := v])"
    by (simp add: list_all_update)
  with a show ?thesis
    unfolding cells_ok_def by (rule list_all_update)
next
  case False
  assume "cells_ok a"
  with False show ?thesis by (simp add: list_update_beyond)
qed

lemma cells_ok_nth:
  "cells_ok a \<Longrightarrow> n < length a \<Longrightarrow> m < length (a ! n) \<Longrightarrow> a ! n ! m = 0 \<or> a ! n ! m = 1"
  by (auto simp: cells_ok_def list_all_length)

lemma wf_rows: "wf_game g \<Longrightarrow> int (length (grid g)) = rows g"
  by (simp add: wf_game_def shape_ok_def)

lemma wf_cols: "wf_game g \<Longrightarrow> 0 \<le> i \<Longrightarrow> i < rows g \<Longrightarrow> int (length (grid g ! nat i)) = cols g"
  by (auto simp: wf_game_def dest: shape_ok_row)

lemma wf_get:
  "wf_game g \<Longrightarrow> 0 \<le> r \<Longrightarrow> r < rows g \<Longrightarrow> 0 \<le> c \<Longrightarrow> c < cols g \<Longrightarrow>
   np_get (grid g) r c = Inr (grid g ! nat r ! nat c)"
  by (simp add: np_get_in wf_rows wf_cols)

lemma wf_set:
  "wf_game g \<Longrightarrow> 0 \<le> r \<Longrightarrow> r < rows g \<Longrightarrow> 0 \<le> c \<Longrightarrow> c < cols g \<Longrightarrow>
   np_set (grid g) r c v = Inr ((grid g)[nat r := (grid g ! nat r)[nat c := v]])"
  by (simp add: np_set_in wf_rows wf_cols)

lemma wf_cell:
  "wf_game g \<Longrightarrow> 0 \<le> r \<Longrightarrow> r < rows g \<Longrightarrow> 0 \<le> c \<Longrightarrow> c < cols g \<Longrightarrow>
   grid g ! nat r ! nat c = 0 \<or> grid g ! nat r ! nat c = 1"
  using wf_rows[of g] wf_cols[of g r]
  by (intro cells_ok_nth) (auto simp: wf_game_def)

lemma handle_mouse_click_in:
  assumes "wf_game g" and "0 \<le> y div cell_size g" and "y div cell_size g < rows g"
    and "0 \<le> x div cell_size g" and "x div cell_size g < cols g"
  shows "handle_mouse_click g (x, y) =
     Inr (g\<lparr>grid := (grid g)[nat (y div cell_size g) :=
               (grid g ! nat (y div cell_size g))[nat (x div cell_size g) :=
                  1 - grid g ! nat (y div cell_size g) ! nat (x div cell_size g)]],
            stdout := stdout g @ [(y div cell_size g, x div cell_size g,
                  1 - grid g ! nat (y div cell_size g) ! nat (x div cell_size g))]\<rparr>)"
proof -
  let ?r = "y div cell_size g" and ?c = "x div cell_size g"
  let ?a = "(grid g)[nat ?r := (grid g ! nat ?r)[nat ?c := 1 - grid g ! nat ?r ! nat ?c]]"
  have cs: "cell_size g \<noteq> 0" using assms(1) by (simp add: wf_game_def)
  have lr: "nat ?r < length (grid g)" using assms wf_rows[of g] by linarith
  have lc: "nat ?c < length (grid g ! nat ?r)" using assms wf_cols[of g ?r] by linarith
  have g1: "np_get (grid g) ?r ?c = Inr (grid g ! nat ?r ! nat ?c)"
    using assms by (rule wf_get)
  have s1: "np_set (grid g) ?r ?c v = Inr ((grid g)[nat ?r := (grid g ! nat ?r)[nat ?c := v]])" for v
    using assms by (rule wf_set)
  have g2: "np_get ?a ?r ?c = Inr (1 - grid g ! nat ?r ! nat ?c)"
    using assms lr lc wf_rows[of g] by (subst np_get_in) auto
  show ?thesis
    using assms(2-5) cs by (simp add: handle_mouse_click_def py_floordiv_def g1 s1 g2)
qed

lemma wf_handle_mouse_click:
  assumes "wf_game g" and "handle_mouse_click g pos = Inr g'"
  shows "wf_game g' \<and> rows g' = rows g \<and> cols g' = cols g \<and> cell_size g' = cell_size g
     \<and> generation g' = generation g \<and> paused g' = paused g \<and> running g' = running g"
proof -
  obtain x y where pos: "pos = (x, y)" by (cases pos)
  let ?r = "y div cell_size g" and ?c = "x div cell_size g"
  have cs: "cell_size g \<noteq> 0" using assms(1) by (simp add: wf_game_def)
  show ?thesis
  proof (cases "0 \<le> ?r \<and> ?r < rows g \<and> 0 \<le> ?c \<and> ?c < cols g")
    case True
    then have inb: "0 \<le> ?r" "?r < rows g" "0 \<le> ?c" "?c < cols g" by auto
    have v: "1 - grid g ! nat ?r ! nat ?c = 0 \<or> 1 - grid g ! nat ?r ! nat ?c = 1"
      using wf_cell[OF assms(1) inb] by auto
    have "shape_ok ((grid g)[nat ?r := (grid g ! nat ?r)[nat ?c := 1 - grid g ! nat ?r ! nat ?c]]) (rows g) (cols g)"
      using assms(1) inb by (intro shape_ok_update) (auto simp: wf_game_def)
    moreover have "cells_ok ((grid g)[nat ?r := (grid g ! nat ?r)[nat ?c := 1 - grid g ! nat ?r ! nat ?c]])"
      using assms(1) v by (intro cells_ok_update) (auto simp: wf_game_def)
    ultimately show ?thesis
      using assms cs unfolding pos handle_mouse_click_in[OF assms(1) inb]
      by (auto simp: wf_game_def)
  next
    case False
    then have "handle_mouse_click g (x, y) = Inr g"
      using cs by (auto simp: handle_mouse_click_def py_floordiv_def)
    with assms pos show ?thesis by simp
  qed
qed

section \<open>Clicks outside the grid\<close>

text \<open>
  Claim C3. A click whose cell coordinates \<open>row = y // cell_size\<close>,
  \<open>col = x // cell_size\<close> fall outside \<open>[0, rows) \<times> [0, cols)\<close> changes nothing and
  raises nothing: \<^verbatim>\<open>handle_mouse_click\<close> returns the object as it was (grid, counters
  and printed lines). The witness takes the three clicks of the spec: row \<open>-1\<close>,
  row \<open>rows\<close> and column \<open>cols\<close>.
\<close>

theorem toggle_out_of_bounds:
  assumes "cell_size g \<noteq> 0"
    and "\<not> (0 \<le> y div cell_size g \<and> y div cell_size g < rows g \<and>
            0 \<le> x div cell_size g \<and> x div cell_size g < cols g)"
  shows "handle_mouse_click g (x, y) = Inr g"
  using assms by (auto simp: handle_mouse_click_def py_floordiv_def)

theorem toggle_out_of_bounds_witness:
  "handle_mouse_click (example 10 [[0, 1], [1, 0]]) (0, -10) = Inr (example 10 [[0, 1], [1, 0]]) \<and>
   handle_mouse_click (example 10 [[0, 1], [1, 0]]) (0, 20) = Inr (example 10 [[0, 1], [1, 0]]) \<and>
   handle_mouse_click (example 10 [[0, 1], [1, 0]]) (20, 0) = Inr (example 10 [[0, 1], [1, 0]]) \<and>
   cell_size (example 10 [[0, 1], [1, 0]]) = 10 \<and>
   rows (example 10 [[0, 1], [1, 0]]) = 2 \<and> cols (example 10 [[0, 1], [1, 0]]) = 2 \<and>
   (-10) div (10::int) = -1 \<and> 20 div (10::int) = 2"
  using toggle_out_of_bounds [of "example 10 [[0, 1], [1, 0]]" "-10" 0]
    toggle_out_of_bounds [of "example 10 [[0, 1], [1, 0]]" 20 0]
    toggle_out_of_bounds [of "example 10 [[0, 1], [1, 0]]" 0 20]
  by (simp add: example_def)

section \<open>Clicks inside the grid\<close>

text \<open>
  Claim C4. For a well-formed object and a click whose cell \<open>(row, col)\<close> is inside
  the grid: the click succeeds, a second click on the same cell succeeds and gives
  back the original grid, and after the first click the cell \<open>(row, col)\<close> holds 0 if
  it held 1 and 1 otherwise, while every other cell reads as before.
\<close>

theorem toggle_in_bounds:
  assumes "wf_game g" and "0 \<le> y div cell_size g" and "y div cell_size g < rows g"
    and "0 \<le> x div cell_size g" and "x div cell_size g < cols g"
  shows "\<exists>g1 g2. handle_mouse_click g (x, y) = Inr g1 \<and> handle_mouse_click g1 (x, y) = Inr g2 \<and>
     grid g2 = grid g \<and> rows g1 = rows g \<and> cols g1 = cols g \<and>
     (\<forall>r c. 0 \<le> r \<and> r < rows g \<and> 0 \<le> c \<and> c < cols g \<longrightarrow>
        np_get (grid g1) r c =
          (if r = y div cell_size g \<and> c = x div cell_size g
           then (if np_get (grid g) r c = Inr 1 then Inr 0 else Inr 1)
           else np_get (grid g) r c))"
proof -
  let ?r = "y div cell_size g" and ?c = "x div cell_size g"
  let ?v = "grid g ! nat ?r ! nat ?c"
  let ?a = "(grid g)[nat ?r := (grid g ! nat ?r)[nat ?c := 1 - ?v]]"
  let ?g1 = "g\<lparr>grid := ?a, stdout := stdout g @ [(?r, ?c, 1 - ?v)]\<rparr>"
  have h1: "handle_mouse_click g (x, y) = Inr ?g1"
    using assms by (rule handle_mouse_click_in)
  have wf1: "wf_game ?g1" using wf_handle_mouse_click[OF assms(1) h1] by simp
  have lr: "nat ?r < length (grid g)" using assms wf_rows[of g] by linarith
  have lc: "nat ?c < length (grid g ! nat ?r)" using assms wf_cols[of g ?r] by linarith
  have restored: "?a[nat ?r := (?a ! nat ?r)[nat ?c := 1 - ?a ! nat ?r ! nat ?c]] = grid g"
    using lr lc by (simp add: list_update_same_conv)
  have h2: "\<exists>g2. handle_mouse_click ?g1 (x, y) = Inr g2 \<and> grid g2 = grid g"
    using handle_mouse_click_in[OF wf1, of y x] assms(2-5) restored by simp
  have cells: "np_get (grid ?g1) r c =
          (if r = ?r \<and> c = ?c
           then (if np_get (grid g) r c = Inr 1 then Inr 0 else Inr 1)
           else np_get (grid g) r c)"
    if "0 \<le> r \<and> r < rows g \<and> 0 \<le> c \<and> c < cols g" for r c
  proof -
    have a: "np_get (grid ?g1) r c = Inr (?a ! nat r ! nat c)"
      using wf_get[OF wf1, of r c] that by simp
    have b: "np_get (grid g) r c = Inr (grid g ! nat r ! nat c)"
      using wf_get[OF assms(1), of r c] that by simp
    have v: "?v = 0 \<or> ?v = 1" using wf_cell[OF assms] .
    have lr': "nat r < length (grid g)" using that wf_rows[OF assms(1)] by linarith
    show ?thesis
    proof (cases "r = ?r")
      case True
      then show ?thesis
        using a b v lr lc assms(2,4) that
        by (auto simp: nth_list_update nat_eq_iff)
    next
      case False
      then have "nat r \<noteq> nat ?r" using that assms(2) by (simp add: nat_eq_iff)
      then show ?thesis using a b False by simp
    qed
  qed
  from h1 h2 cells show ?thesis by auto
qed

theorem toggle_in_bounds_witness:
  "wf_game (example 10 [[0, 1], [1, 0]]) \<and>
   (3::int) div cell_size (example 10 [[0, 1], [1, 0]]) = 0 \<and>
   (15::int) div cell_size (example 10 [[0, 1], [1, 0]]) = 1 \<and>
   rows (example 10 [[0, 1], [1, 0]]) = 2 \<and> cols (example 10 [[0, 1], [1, 0]]) = 2 \<and>
   (\<exists>g1 g2. handle_mouse_click (example 10 [[0, 1], [1, 0]]) (15, 3) = Inr g1 \<and>
      handle_mouse_click g1 (15, 3) = Inr g2 \<and> grid g1 = [[0, 0], [1, 0]] \<and>
      grid g2 = [[0, 1], [1, 0]])"
  using toggle_in_bounds [of "example 10 [[0, 1], [1, 0]]" 3 15]
  by (simp add: example_def wf_game_def shape_ok_def cells_ok_def handle_mouse_click_def
      py_floordiv_def np_get_def np_set_def np_index_def)

section \<open>The neighbour count\<close>

lemma range2_neighbors: "range2 (-1) 2 = [-1, 0, 1]"
  by (simp add: range2_def upto.simps)

lemma wf_get_mod:
  assumes "wf_game g" and "0 < rows g" and "0 < cols g"
  shows "np_get (grid g) (r mod rows g) (c mod cols g) =
     Inr (grid g ! nat (r mod rows g) ! nat (c mod cols g))"
  using assms by (intro wf_get) simp_all

lemma wf_cell_mod:
  assumes "wf_game g" and "0 < rows g" and "0 < cols g"
  shows "grid g ! nat (r mod rows g) ! nat (c mod cols g) = 0 \<or>
     grid g ! nat (r mod rows g) ! nat (c mod cols g) = 1"
  using assms by (intro wf_cell) simp_all

lemma count_neighbors_sum:
  assumes "wf_game g" and "0 < rows g" and "0 < cols g"
  shows "count_neighbors g row col =
     Inr (sum_list (map (\<lambda>(di, dj).
        grid g ! nat ((row + di) mod rows g) ! nat ((col + dj) mod cols g)) neighbor_offsets))"
  using assms
  by (simp add: count_neighbors_def range2_neighbors py_mod_def wf_get_mod neighbor_offsets_def)

lemma spec_neighbor_count_sum:
  assumes "wf_game g" and "0 < rows g" and "0 < cols g"
  shows "int (spec_neighbor_count g row col) =
     sum_list (map (\<lambda>(di, dj).
        grid g ! nat ((row + di) mod rows g) ! nat ((col + dj) mod cols g)) neighbor_offsets)"
proof -
  have v: "(np_get (grid g) ((row + di) mod rows g) ((col + dj) mod cols g) = Inr 1) =
      (grid g ! nat ((row + di) mod rows g) ! nat ((col + dj) mod cols g) = 1)" for di dj
    by (simp add: wf_get_mod[OF assms])
  have w: "grid g ! nat ((row + di) mod rows g) ! nat ((col + dj) mod cols g) \<noteq> 1 \<Longrightarrow>
      grid g ! nat ((row + di) mod rows g) ! nat ((col + dj) mod cols g) = 0" for di dj
    using wf_cell_mod[OF assms, of "row + di" "col + dj"] by simp
  have "int (length (filter (\<lambda>(di, dj).
       np_get (grid g) ((row + di) mod rows g) ((col + dj) mod cols g) = Inr 1) offs)) =
     sum_list (map (\<lambda>(di, dj).
        grid g ! nat ((row + di) mod rows g) ! nat ((col + dj) mod cols g)) offs)" for offs
    by (induction offs) (auto simp: v w)
  then show ?thesis
    by (simp add: spec_neighbor_count_def)
qed

lemma spec_neighbor_count_le: "spec_neighbor_count g row col \<le> 8"
proof -
  have "spec_neighbor_count g row col \<le> length neighbor_offsets"
    unfolding spec_neighbor_count_def by (rule length_filter_le)
  then show ?thesis by (simp add: neighbor_offsets_def)
qed

text \<open>
  Claim C2. On a well-formed object with \<open>rows > 0\<close> and \<open>cols > 0\<close>, for any integers
  \<open>row\<close> and \<open>col\<close>, \<^verbatim>\<open>count_neighbors\<close> returns without error the number of the eight
  offsets \<open>(di, dj)\<close> whose cell \<open>((row + di) mod rows, (col + dj) mod cols)\<close> is alive;
  the number is at most 8; and an alive cell at \<open>(rows - 1, cols - 1)\<close> is counted among
  the neighbours of \<open>(0, 0)\<close>.
\<close>

theorem count_neighbors_toroidal:
  assumes "wf_game g" and "0 < rows g" and "0 < cols g"
  shows "count_neighbors g row col = Inr (int (spec_neighbor_count g row col)) \<and>
     spec_neighbor_count g row col \<le> 8 \<and>
     (np_get (grid g) (rows g - 1) (cols g - 1) = Inr 1 \<longrightarrow>
        1 \<le> spec_neighbor_count g 0 0)"
proof -
  have a: "count_neighbors g row col = Inr (int (spec_neighbor_count g row col))"
    using assms by (simp add: count_neighbors_sum spec_neighbor_count_sum)
  have "1 \<le> spec_neighbor_count g 0 0" if "np_get (grid g) (rows g - 1) (cols g - 1) = Inr 1"
  proof -
    have r: "(- 1) mod rows g = rows g - 1" and c: "(- 1) mod cols g = cols g - 1"
      using assms by (simp_all add: zmod_minus1)
    show ?thesis
      using that by (simp add: spec_neighbor_count_def neighbor_offsets_def r c)
  qed
  with a spec_neighbor_count_le show ?thesis by blast
qed

theorem count_neighbors_toroidal_witness:
  "wf_game (example 10 [[0, 0, 0], [0, 0, 0], [0, 0, 1]]) \<and>
   0 < rows (example 10 [[0, 0, 0], [0, 0, 0], [0, 0, 1]]) \<and>
   0 < cols (example 10 [[0, 0, 0], [0, 0, 0], [0, 0, 1]]) \<and>
   np_get (grid (example 10 [[0, 0, 0], [0, 0, 0], [0, 0, 1]])) 2 2 = Inr 1 \<and>
   count_neighbors (example 10 [[0, 0, 0], [0, 0, 0], [0, 0, 1]]) 0 0 = Inr 1 \<and>
   spec_neighbor_count (example 10 [[0, 0, 0], [0, 0, 0], [0, 0, 1]]) 0 0 = 1"
  using count_neighbors_toroidal [of "example 10 [[0, 0, 0], [0, 0, 0], [0, 0, 1]]" 0 0]
  by (simp add: example_def wf_game_def shape_ok_def cells_ok_def
      spec_neighbor_count_def neighbor_offsets_def np_get_def np_index_def)

section \<open>One generation\<close>

lemma spec_next_cell_01: "spec_next_cell g row col = 0 \<or> spec_next_cell g row col = 1"
  by (simp add: spec_next_cell_def)

lemma update_cols_step:
  assumes "wf_game g" and "0 \<le> i" and "i < rows g" and "0 \<le> j" and "j < cols g"
    and "shape_ok a (rows g) (cols g)"
  shows "update_cols g a i (j # js) =
     update_cols g (if spec_next_cell g i j = 1
                    then a[nat i := (a ! nat i)[nat j := 1]] else a) i js"
proof -
  have pos: "0 < rows g" "0 < cols g" using assms by linarith+
  have n: "count_neighbors g i j = Inr (int (spec_neighbor_count g i j))"
    using count_neighbors_sum[OF assms(1) pos] spec_neighbor_count_sum[OF assms(1) pos] by simp
  have v: "np_get (grid g) i j = Inr (grid g ! nat i ! nat j)"
    using assms by (intro wf_get)
  have s: "np_set a i j 1 = Inr (a[nat i := (a ! nat i)[nat j := 1]])"
    using assms shape_ok_length[OF assms(6)] shape_ok_row[OF assms(6), of i]
    by (intro np_set_in) simp_all
  show ?thesis
    by (simp add: n v s spec_next_cell_def)
qed

lemma shape_ok_nth: "shape_ok a r c \<Longrightarrow> n < length a \<Longrightarrow> int (length (a ! n)) = c"
  by (auto simp: shape_ok_def list_all_length)

lemma update_cols_result:
  assumes "wf_game g" and "0 \<le> i" and "i < rows g"
    and "shape_ok a (rows g) (cols g)" and "\<forall>j\<in>set js. 0 \<le> j \<and> j < cols g"
  shows "\<exists>a'. update_cols g a i js = Inr a' \<and> shape_ok a' (rows g) (cols g) \<and>
     (\<forall>r c. r < length a \<and> c < length (a ! r) \<longrightarrow>
        a' ! r ! c = (if r = nat i \<and> int c \<in> set js \<and> spec_next_cell g i (int c) = 1
                      then 1 else a ! r ! c))"
  using assms(4,5)
proof (induction js arbitrary: a)
  case Nil
  then show ?case by simp
next
  case (Cons j js)
  let ?a1 = "if spec_next_cell g i j = 1 then a[nat i := (a ! nat i)[nat j := 1]] else a"
  have j: "0 \<le> j" "j < cols g" using Cons.prems(2) by simp_all
  have step: "update_cols g a i (j # js) = update_cols g ?a1 i js"
    using assms(1-3) j Cons.prems(1) by (rule update_cols_step)
  have sh1: "shape_ok ?a1 (rows g) (cols g)"
    using Cons.prems(1) assms(2,3) by (simp add: shape_ok_update)
  have js: "\<forall>j\<in>set js. 0 \<le> j \<and> j < cols g" using Cons.prems(2) by simp
  from Cons.IH[OF sh1 js] obtain a' where
    a': "update_cols g ?a1 i js = Inr a'" "shape_ok a' (rows g) (cols g)"
    and cells: "\<And>r c. r < length ?a1 \<Longrightarrow> c < length (?a1 ! r) \<Longrightarrow>
        a' ! r ! c = (if r = nat i \<and> int c \<in> set js \<and> spec_next_cell g i (int c) = 1
                      then 1 else ?a1 ! r ! c)"
    by blast
  have len: "length ?a1 = length a" by simp
  have li: "nat i < length a"
    using shape_ok_length[OF Cons.prems(1)] assms(2,3) by linarith
  have lenr: "length (?a1 ! r) = length (a ! r)" if "r < length a" for r
    using that li by (auto simp: nth_list_update)
  have old: "?a1 ! r ! c = (if r = nat i \<and> int c = j \<and> spec_next_cell g i j = 1
                      then 1 else a ! r ! c)"
    if "r < length a" "c < length (a ! r)" for r c
    using that j(1) li by (auto simp: nth_list_update)
  have "a' ! r ! c = (if r = nat i \<and> int c \<in> set (j # js) \<and> spec_next_cell g i (int c) = 1
                      then 1 else a ! r ! c)"
    if "r < length a" "c < length (a ! r)" for r c
    using cells[of r c] old[OF that] that len lenr[OF that(1)] by auto
  with step a' show ?case by auto
qed

lemma set_range: "set (range n) = {0..n - 1}"
  by (simp add: range_def)

lemma update_rows_result:
  assumes "wf_game g"
    and "shape_ok a (rows g) (cols g)" and "\<forall>i\<in>set is. 0 \<le> i \<and> i < rows g"
  shows "\<exists>a'. update_rows g a is = Inr a' \<and> shape_ok a' (rows g) (cols g) \<and>
     (\<forall>r c. r < length a \<and> c < length (a ! r) \<longrightarrow>
        a' ! r ! c = (if int r \<in> set is \<and> spec_next_cell g (int r) (int c) = 1
                      then 1 else a ! r ! c))"
  using assms(2,3)
proof (induction "is" arbitrary: a)
  case Nil
  then show ?case by simp
next
  case (Cons i "is")
  have i: "0 \<le> i" "i < rows g" using Cons.prems(2) by simp_all
  have cols: "\<forall>j\<in>set (range (cols g)). 0 \<le> j \<and> j < cols g"
    by (simp add: set_range)
  from update_cols_result[OF assms(1) i Cons.prems(1) cols] obtain a1 where
    a1: "update_cols g a i (range (cols g)) = Inr a1" "shape_ok a1 (rows g) (cols g)"
    and c1: "\<And>r c. r < length a \<Longrightarrow> c < length (a ! r) \<Longrightarrow>
        a1 ! r ! c = (if r = nat i \<and> int c \<in> set (range (cols g)) \<and>
                         spec_next_cell g i (int c) = 1 then 1 else a ! r ! c)"
    by blast
  have rest: "\<forall>i\<in>set is. 0 \<le> i \<and> i < rows g" using Cons.prems(2) by simp
  from Cons.IH[OF a1(2) rest] obtain a' where
    a': "update_rows g a1 is = Inr a'" "shape_ok a' (rows g) (cols g)"
    and c': "\<And>r c. r < length a1 \<Longrightarrow> c < length (a1 ! r) \<Longrightarrow>
        a' ! r ! c = (if int r \<in> set is \<and> spec_next_cell g (int r) (int c) = 1
                      then 1 else a1 ! r ! c)"
    by blast
  have len: "length a1 = length a"
    using shape_ok_length[OF a1(2)] shape_ok_length[OF Cons.prems(1)] by simp
  have lenr: "length (a1 ! r) = length (a ! r)" if "r < length a" for r
    using shape_ok_nth[OF a1(2), of r] shape_ok_nth[OF Cons.prems(1), of r] that len by simp
  have "a' ! r ! c = (if int r \<in> set (i # is) \<and> spec_next_cell g (int r) (int c) = 1
                      then 1 else a ! r ! c)"
    if "r < length a" "c < length (a ! r)" for r c
  proof -
    have cc: "int c \<in> set (range (cols g))"
      using shape_ok_nth[OF Cons.prems(1) that(1)] that(2) by (simp add: set_range)
    have ri: "r = nat i \<longleftrightarrow> int r = i" using i(1) by auto
    show ?thesis
      using c'[of r c] c1[OF that] that len lenr[OF that(1)] cc ri by auto
  qed
  with a1 a' show ?case by auto
qed

lemma shape_ok_zeros: "0 \<le> r \<Longrightarrow> 0 \<le> c \<Longrightarrow> shape_ok (replicate (nat r) (replicate (nat c) 0)) r c"
  by (simp add: shape_ok_def list_all_length)

lemma wf_nonneg: "wf_game g \<Longrightarrow> 0 \<le> rows g \<and> 0 \<le> cols g"
  using wf_rows[of g] by (auto simp: wf_game_def)

lemma length_range: "length (range n) = nat n"
  by (simp add: range_def)

lemma nth_range: "k < nat n \<Longrightarrow> range n ! k = int k"
  by (simp add: range_def)

lemma update_grid_spec:
  assumes "wf_game g"
  shows "update_grid g = Inr (g\<lparr>grid := spec_next_grid g, generation := generation g + 1\<rparr>)"
proof -
  let ?z = "replicate (nat (rows g)) (replicate (nat (cols g)) (0::int))"
  have nn: "0 \<le> rows g" "0 \<le> cols g" using wf_nonneg[OF assms] by simp_all
  have z: "np_zeros (rows g) (cols g) = Inr ?z" using nn by (simp add: np_zeros_def)
  have shz: "shape_ok ?z (rows g) (cols g)" using nn by (rule shape_ok_zeros)
  have rr: "\<forall>i\<in>set (range (rows g)). 0 \<le> i \<and> i < rows g" by (simp add: set_range)
  from update_rows_result[OF assms shz rr] obtain a' where
    a': "update_rows g ?z (range (rows g)) = Inr a'" "shape_ok a' (rows g) (cols g)"
    and cells: "\<And>r c. r < length ?z \<Longrightarrow> c < length (?z ! r) \<Longrightarrow>
        a' ! r ! c = (if int r \<in> set (range (rows g)) \<and> spec_next_cell g (int r) (int c) = 1
                      then 1 else ?z ! r ! c)"
    by blast
  have la: "length a' = nat (rows g)" using shape_ok_length[OF a'(2)] by simp
  have "a' = spec_next_grid g"
  proof (rule nth_equalityI)
    show "length a' = length (spec_next_grid g)"
      by (simp add: la spec_next_grid_def length_range)
  next
    fix r assume r: "r < length a'"
    then have r': "r < nat (rows g)" using la by simp
    have lr: "length (a' ! r) = nat (cols g)" using shape_ok_nth[OF a'(2) r] by simp
    show "a' ! r = spec_next_grid g ! r"
    proof (rule nth_equalityI)
      show "length (a' ! r) = length (spec_next_grid g ! r)"
        using r' by (simp add: lr spec_next_grid_def length_range)
    next
      fix c assume "c < length (a' ! r)"
      then have c': "c < nat (cols g)" using lr by simp
      have "a' ! r ! c = (if spec_next_cell g (int r) (int c) = 1 then 1 else 0)"
        using cells[of r c] r' c' by (auto simp: set_range)
      also have "\<dots> = spec_next_cell g (int r) (int c)"
        using spec_next_cell_01[of g "int r" "int c"] by auto
      finally show "a' ! r ! c = spec_next_grid g ! r ! c"
        using r' c' by (simp add: spec_next_grid_def length_range nth_range)
    qed
  qed
  with z a' show ?thesis by (simp add: update_grid_def)
qed

lemma shape_ok_spec_next_grid:
  "0 \<le> rows g \<Longrightarrow> 0 \<le> cols g \<Longrightarrow> shape_ok (spec_next_grid g) (rows g) (cols g)"
  by (simp add: shape_ok_def spec_next_grid_def length_range list_all_iff)

lemma cells_ok_spec_next_grid: "cells_ok (spec_next_grid g)"
  using spec_next_cell_01 by (auto simp: cells_ok_def spec_next_grid_def list_all_iff)

lemma wf_update_grid:
  assumes "wf_game g" and "update_grid g = Inr g'"
  shows "wf_game g' \<and> rows g' = rows g \<and> cols g' = cols g \<and> cell_size g' = cell_size g
     \<and> generation g' = generation g + 1 \<and> paused g' = paused g \<and> running g' = running g"
  using assms wf_nonneg[OF assms(1)]
  by (auto simp: update_grid_spec wf_game_def shape_ok_spec_next_grid cells_ok_spec_next_grid)

lemma spec_next_grid_get:
  assumes "0 \<le> row" and "row < rows g" and "0 \<le> col" and "col < cols g"
  shows "np_get (spec_next_grid g) row col = Inr (spec_next_cell g row col)"
proof -
  have "np_get (spec_next_grid g) row col = Inr (spec_next_grid g ! nat row ! nat col)"
    using assms by (intro np_get_in) (simp_all add: spec_next_grid_def length_range)
  then show ?thesis
    using assms by (simp add: spec_next_grid_def length_range nth_range)
qed

text \<open>
  Claim C1. On a well-formed object \<^verbatim>\<open>update_grid\<close> returns without error, and for
  every cell \<open>(row, col)\<close> of the grid the new value is 1 (alive) exactly when the old
  value \<open>v\<close> is 1 and the neighbour count \<open>n\<close> of the old grid is 2 or 3, or \<open>v\<close> is 0
  and \<open>n\<close> is 3; it is 0 (dead) otherwise. Both \<open>v\<close> and \<open>n\<close> are read from the object
  as it was before the call, so nothing written by the step is read by it.
\<close>

theorem update_grid_rule:
  assumes "wf_game g"
  shows "\<exists>g'. update_grid g = Inr g' \<and> wf_game g' \<and> rows g' = rows g \<and> cols g' = cols g \<and>
     (\<forall>row col. 0 \<le> row \<and> row < rows g \<and> 0 \<le> col \<and> col < cols g \<longrightarrow>
        (\<exists>n v. count_neighbors g row col = Inr n \<and> np_get (grid g) row col = Inr v \<and>
           (v = 0 \<or> v = 1) \<and>
           np_get (grid g') row col =
             Inr (if v = 1 \<and> (n = 2 \<or> n = 3) \<or> v = 0 \<and> n = 3 then 1 else 0)))"
proof -
  let ?g' = "g\<lparr>grid := spec_next_grid g, generation := generation g + 1\<rparr>"
  have u: "update_grid g = Inr ?g'" using assms by (rule update_grid_spec)
  have wf': "wf_game ?g'" "rows ?g' = rows g" "cols ?g' = cols g"
    using wf_update_grid[OF assms u] by simp_all
  have "\<exists>n v. count_neighbors g row col = Inr n \<and> np_get (grid g) row col = Inr v \<and>
           (v = 0 \<or> v = 1) \<and>
           np_get (grid ?g') row col =
             Inr (if v = 1 \<and> (n = 2 \<or> n = 3) \<or> v = 0 \<and> n = 3 then 1 else 0)"
    if "0 \<le> row \<and> row < rows g \<and> 0 \<le> col \<and> col < cols g" for row col
  proof -
    from that have inb: "0 \<le> row" "row < rows g" "0 \<le> col" "col < cols g" by simp_all
    have pos: "0 < rows g" "0 < cols g" using inb by linarith+
    have n: "count_neighbors g row col = Inr (int (spec_neighbor_count g row col))"
      using count_neighbors_sum[OF assms pos] spec_neighbor_count_sum[OF assms pos] by simp
    have v: "np_get (grid g) row col = Inr (grid g ! nat row ! nat col)"
      using assms inb by (rule wf_get)
    have v01: "grid g ! nat row ! nat col = 0 \<or> grid g ! nat row ! nat col = 1"
      using assms inb by (rule wf_cell)
    have "np_get (grid ?g') row col = Inr (spec_next_cell g row col)"
      using spec_next_grid_get[OF inb] by simp
    with n v v01 show ?thesis
      by (auto simp: spec_next_cell_def)
  qed
  with u wf' show ?thesis by blast
qed

theorem update_grid_rule_witness:
  "wf_game (example 10 [[0, 0, 0], [1, 1, 1], [0, 0, 0]]) \<and>
   (\<exists>g'. update_grid (example 10 [[0, 0, 0], [1, 1, 1], [0, 0, 0]]) = Inr g' \<and>
      count_neighbors (example 10 [[0, 0, 0], [1, 1, 1], [0, 0, 0]]) 0 0 = Inr 3 \<and>
      np_get (grid (example 10 [[0, 0, 0], [1, 1, 1], [0, 0, 0]])) 0 0 = Inr 0 \<and>
      np_get (grid g') 0 0 = Inr 1)"
proof -
  let ?g = "example 10 [[0, 0, 0], [1, 1, 1], [0, 0, 0]]"
  have wf: "wf_game ?g"
    by (simp add: example_def wf_game_def shape_ok_def cells_ok_def)
  have dims: "rows ?g = 3" "cols ?g = 3"
    by (simp_all add: example_def)
  have n: "count_neighbors ?g 0 0 = Inr 3"
    by (simp add: example_def count_neighbors_def range2_neighbors py_mod_def np_get_def
        np_index_def)
  have v: "np_get (grid ?g) 0 0 = Inr 0"
    by (simp add: example_def np_get_def np_index_def)
  from update_grid_rule[OF wf] obtain g' where u: "update_grid ?g = Inr g'"
    and cells: "\<forall>row col. 0 \<le> row \<and> row < rows ?g \<and> 0 \<le> col \<and> col < cols ?g \<longrightarrow>
        (\<exists>n v. count_neighbors ?g row col = Inr n \<and> np_get (grid ?g) row col = Inr v \<and>
           (v = 0 \<or> v = 1) \<and>
           np_get (grid g') row col =
             Inr (if v = 1 \<and> (n = 2 \<or> n = 3) \<or> v = 0 \<and> n = 3 then 1 else 0))"
    by blast
  from cells[rule_format, of 0 0] dims n v have "np_get (grid g') 0 0 = Inr 1"
    by auto
  with wf u n v show ?thesis by blast
qed

section \<open>What every operation keeps\<close>

lemma ebind_eq_Inr: "ebind m f = Inr y \<longleftrightarrow> (\<exists>x. m = Inr x \<and> f x = Inr y)"
  by (cases m) simp_all

lemma np_index_lt: "np_index n i = Inr k \<Longrightarrow> k < n"
  by (auto simp: np_index_def split: if_splits)

lemma np_set_Inr:
  assumes "np_set a r c v = Inr a'"
  shows "\<exists>n m. n < length a \<and> m < length (a ! n) \<and> a' = a[n := (a ! n)[m := v]]"
  using assms by (auto simp: np_set_def ebind_eq_Inr dest: np_index_lt)

lemma shape_ok_update_nat:
  "shape_ok a r c \<Longrightarrow> shape_ok (a[n := (a ! n)[m := v]]) r c"
proof (cases "n < length a")
  case True
  assume "shape_ok a r c"
  with True show ?thesis
    by (auto simp: shape_ok_def list_all_length nth_list_update)
next
  case False
  assume "shape_ok a r c"
  with False show ?thesis by (simp add: list_update_beyond)
qed

lemma np_set_shape: "np_set a r c v = Inr a' \<Longrightarrow> shape_ok a R C \<Longrightarrow> shape_ok a' R C"
  by (auto dest!: np_set_Inr simp: shape_ok_update_nat)

lemma np_set_cells: "np_set a r c v = Inr a' \<Longrightarrow> cells_ok a \<Longrightarrow> v = 0 \<or> v = 1 \<Longrightarrow> cells_ok a'"
  by (auto dest!: np_set_Inr simp: cells_ok_update)

lemma wf_grid_update:
  assumes "wf_game g" and "np_set (grid g) r c v = Inr a" and "v = 0 \<or> v = 1"
  shows "wf_game (g\<lparr>grid := a\<rparr>)"
  using assms np_set_shape[OF assms(2)] np_set_cells[OF assms(2)]
  by (auto simp: wf_game_def)

lemma randomize_cols_result:
  assumes "0 \<le> i" and "i < rows g" and "wf_game g" and "\<forall>j\<in>set js. 0 \<le> j \<and> j < cols g"
  shows "\<exists>g'. randomize_cols rnd density g i js = Inr g' \<and> wf_game g' \<and>
     rows g' = rows g \<and> cols g' = cols g \<and> cell_size g' = cell_size g \<and>
     generation g' = generation g \<and> paused g' = paused g \<and> running g' = running g"
  using assms(2-4)
proof (induction js arbitrary: g)
  case Nil
  then show ?case by simp
next
  case (Cons j js)
  let ?v = "if rnd (rand_calls g) < density then 1 else 0 :: int"
  let ?a = "(grid g)[nat i := (grid g ! nat i)[nat j := ?v]]"
  let ?g1 = "g\<lparr>grid := ?a, rand_calls := Suc (rand_calls g)\<rparr>"
  have j: "0 \<le> j" "j < cols g" using Cons.prems(3) by simp_all
  have s: "np_set (grid g) i j ?v = Inr ?a"
    using Cons.prems(2) assms(1) Cons.prems(1) j by (rule wf_set)
  have "wf_game (g\<lparr>grid := ?a\<rparr>)"
    using Cons.prems(2) s by (rule wf_grid_update) simp
  then have wf1: "wf_game ?g1" by (simp add: wf_game_def)
  have "\<exists>g'. randomize_cols rnd density ?g1 i js = Inr g' \<and> wf_game g' \<and>
     rows g' = rows ?g1 \<and> cols g' = cols ?g1 \<and> cell_size g' = cell_size ?g1 \<and>
     generation g' = generation ?g1 \<and> paused g' = paused ?g1 \<and> running g' = running ?g1"
    using Cons.prems(1,3) wf1 by (intro Cons.IH) simp_all
  then show ?case by (simp add: s)
qed

lemma randomize_rows_result:
  assumes "wf_game g" and "\<forall>i\<in>set is. 0 \<le> i \<and> i < rows g"
  shows "\<exists>g'. randomize_rows rnd density g is = Inr g' \<and> wf_game g' \<and>
     rows g' = rows g \<and> cols g' = cols g \<and> cell_size g' = cell_size g \<and>
     generation g' = generation g \<and> paused g' = paused g \<and> running g' = running g"
  using assms
proof (induction "is" arbitrary: g)
  case Nil
  then show ?case by simp
next
  case (Cons i "is")
  have i: "0 \<le> i" "i < rows g" using Cons.prems(2) by simp_all
  have cols: "\<forall>j\<in>set (range (cols g)). 0 \<le> j \<and> j < cols g"
    by (simp add: set_range)
  from randomize_cols_result[OF i Cons.prems(1) cols, of rnd density] obtain g1 where
    g1: "randomize_cols rnd density g i (range (cols g)) = Inr g1" "wf_game g1"
      "rows g1 = rows g" "cols g1 = cols g" "cell_size g1 = cell_size g"
      "generation g1 = generation g" "paused g1 = paused g" "running g1 = running g"
    by blast
  have "\<exists>g'. randomize_rows rnd density g1 is = Inr g' \<and> wf_game g' \<and>
     rows g' = rows g1 \<and> cols g' = cols g1 \<and> cell_size g' = cell_size g1 \<and>
     generation g' = generation g1 \<and> paused g' = paused g1 \<and> running g' = running g1"
    using g1(2,3) Cons.prems(2) by (intro Cons.IH) simp_all
  with g1 show ?case by simp
qed

lemma randomize_grid_result:
  assumes "wf_game g"
  shows "\<exists>g'. randomize_grid rnd density g = Inr g' \<and> wf_game g' \<and>
     rows g' = rows g \<and> cols g' = cols g \<and> cell_size g' = cell_size g \<and>
     generation g' = 0 \<and> paused g' = paused g \<and> running g' = running g"
proof -
  have rr: "\<forall>i\<in>set (range (rows g)). 0 \<le> i \<and> i < rows g" by (simp add: set_range)
  from randomize_rows_result[OF assms rr, of rnd density] obtain g1 where
    g1: "randomize_rows rnd density g (range (rows g)) = Inr g1" "wf_game g1"
      "rows g1 = rows g" "cols g1 = cols g" "cell_size g1 = cell_size g"
      "generation g1 = generation g" "paused g1 = paused g" "running g1 = running g"
    by blast
  have "wf_game (g1\<lparr>generation := 0\<rparr>)" using g1(2) by (simp add: wf_game_def)
  with g1 show ?thesis by (simp add: randomize_grid_def)
qed

lemma cells_ok_zeros: "cells_ok (replicate n (replicate m 0))"
  by (simp add: cells_ok_def list_all_length)

lemma clear_grid_result:
  assumes "wf_game g"
  shows "clear_grid g =
     Inr (g\<lparr>grid := replicate (nat (rows g)) (replicate (nat (cols g)) 0), generation := 0\<rparr>)
     \<and> wf_game (g\<lparr>grid := replicate (nat (rows g)) (replicate (nat (cols g)) 0),
                  generation := 0\<rparr>)"
  using assms wf_nonneg[OF assms]
  by (simp add: clear_grid_def np_zeros_def wf_game_def shape_ok_zeros cells_ok_zeros)

lemma init_result:
  "init w h cs =
     (if cs = 0 then Inl ZeroDivisionError
      else if w < 0 \<or> h < 0 then Inl PygameError
      else if h div cs < 0 \<or> w div cs < 0 then Inl ValueError
      else Inr \<lparr>width = w, height = h, cell_size = cs, cols = w div cs, rows = h div cs,
                grid = replicate (nat (h div cs)) (replicate (nat (w div cs)) 0),
                running = True, paused = False, generation = 0, rand_calls = 0,
                stdout = []\<rparr>)"
  by (simp add: init_def py_floordiv_def set_mode_def np_zeros_def)

lemma wf_init:
  assumes "init w h cs = Inr g"
  shows "wf_game g \<and> generation g = 0 \<and> \<not> paused g \<and> running g"
  using assms unfolding init_result
  by (auto simp: wf_game_def shape_ok_zeros cells_ok_zeros split: if_splits)

lemma seed_cols_result:
  assumes "wf_game g" and "seed_cols g sr sc i j cells = Inr g'"
    and "list_all (\<lambda>v. v = 0 \<or> v = 1) cells"
  shows "wf_game g' \<and>
     rows g' = rows g \<and> cols g' = cols g \<and> cell_size g' = cell_size g \<and>
     generation g' = generation g \<and> paused g' = paused g \<and> running g' = running g"
  using assms
proof (induction cells arbitrary: g j)
  case Nil
  then show ?case by simp
next
  case (Cons cell cells)
  show ?case
  proof (cases "sr + i < rows g \<and> sc + j < cols g")
    case True
    with Cons.prems(2) obtain a where
      a: "np_set (grid g) (sr + i) (sc + j) cell = Inr a"
      and rest: "seed_cols (g\<lparr>grid := a\<rparr>) sr sc i (j + 1) cells = Inr g'"
      by (auto simp: ebind_eq_Inr)
    have c01: "cell = 0 \<or> cell = 1" using Cons.prems(3) by simp
    have "wf_game (g\<lparr>grid := a\<rparr>)"
      using Cons.prems(1) a c01 by (rule wf_grid_update)
    from Cons.IH[OF this rest] Cons.prems(3) show ?thesis by simp
  next
    case False
    with Cons.prems have "seed_cols g sr sc i (j + 1) cells = Inr g'" by auto
    from Cons.IH[OF Cons.prems(1) this] Cons.prems(3) show ?thesis by simp
  qed
qed

lemma seed_rows_result:
  assumes "wf_game g" and "seed_rows g sr sc i template = Inr g'"
    and "cells_ok template"
  shows "wf_game g' \<and>
     rows g' = rows g \<and> cols g' = cols g \<and> cell_size g' = cell_size g \<and>
     generation g' = generation g \<and> paused g' = paused g \<and> running g' = running g"
  using assms
proof (induction template arbitrary: g i)
  case Nil
  then show ?case by simp
next
  case (Cons row rest)
  from Cons.prems(2) obtain g1 where
    g1: "seed_cols g sr sc i 0 row = Inr g1"
    and r: "seed_rows g1 sr sc (i + 1) rest = Inr g'"
    by (auto simp: ebind_eq_Inr)
  have row: "list_all (\<lambda>v. v = 0 \<or> v = 1) row" and rest: "cells_ok rest"
    using Cons.prems(3) by (simp_all add: cells_ok_def)
  from seed_cols_result[OF Cons.prems(1) g1 row] Cons.IH[OF _ r rest]
  show ?case by auto
qed

lemma create_glider_result:
  assumes "wf_game g" and "create_glider g sr sc = Inr g'"
  shows "wf_game g' \<and>
     rows g' = rows g \<and> cols g' = cols g \<and> cell_size g' = cell_size g \<and>
     generation g' = generation g \<and> paused g' = paused g \<and> running g' = running g"
  using assms(2) unfolding create_glider_def
  by (rule seed_rows_result[OF assms(1)]) (simp add: cells_ok_def glider_def)

lemma create_blinker_result:
  assumes "wf_game g" and "create_blinker g sr sc = Inr g'"
  shows "wf_game g' \<and>
     rows g' = rows g \<and> cols g' = cols g \<and> cell_size g' = cell_size g \<and>
     generation g' = generation g \<and> paused g' = paused g \<and> running g' = running g"
  using assms(2) unfolding create_blinker_def
  by (rule seed_rows_result[OF assms(1)]) (simp add: cells_ok_def blinker_def)

section \<open>The generation counter\<close>

lemma handle_mouse_click_total:
  assumes "wf_game g"
  shows "\<exists>g'. handle_mouse_click g pos = Inr g'"
proof -
  obtain x y where pos: "pos = (x, y)" by (cases pos)
  have cs: "cell_size g \<noteq> 0" using assms by (simp add: wf_game_def)
  show ?thesis
  proof (cases "0 \<le> y div cell_size g \<and> y div cell_size g < rows g \<and>
            0 \<le> x div cell_size g \<and> x div cell_size g < cols g")
    case True
    then show ?thesis unfolding pos using handle_mouse_click_in[OF assms, of y x] by simp
  next
    case False
    then show ?thesis unfolding pos using cs
      by (auto simp: handle_mouse_click_def py_floordiv_def)
  qed
qed

lemma apply_operation_wf:
  assumes "wf_game g" and "apply_operation rnd g x = Inr g'"
  shows "wf_game g' \<and> (0 \<le> generation g \<longrightarrow> 0 \<le> generation g')"
proof (cases x)
  case Step
  with assms wf_update_grid[of g g'] show ?thesis by simp
next
  case (Randomize density)
  with assms randomize_grid_result[OF assms(1), of rnd density] show ?thesis by auto
next
  case Clear
  with assms clear_grid_result[OF assms(1)] show ?thesis by auto
next
  case (Click pos)
  with assms wf_handle_mouse_click[of g pos g'] show ?thesis by simp
next
  case (Glider sr sc)
  with assms create_glider_result[of g sr sc g'] show ?thesis by simp
next
  case (Blinker sr sc)
  with assms create_blinker_result[of g sr sc g'] show ?thesis by simp
qed

lemma apply_operations_wf:
  assumes "wf_game g" and "0 \<le> generation g" and "apply_operations rnd g xs = Inr g'"
  shows "wf_game g' \<and> 0 \<le> generation g'"
  using assms
proof (induction xs arbitrary: g)
  case Nil
  then show ?case by simp
next
  case (Cons x xs)
  from Cons.prems(3) obtain g1 where
    g1: "apply_operation rnd g x = Inr g1" and r: "apply_operations rnd g1 xs = Inr g'"
    by (auto simp: ebind_eq_Inr)
  from apply_operation_wf[OF Cons.prems(1) g1] Cons.prems(2)
  have "wf_game g1" "0 \<le> generation g1" by simp_all
  then show ?case using r by (rule Cons.IH)
qed

text \<open>
  Claim C5. Let \<open>g0\<close> be a newly constructed object and \<open>g\<close> any object reached from it
  by a sequence of steps, randomisations, clears, clicks and pattern seedings that
  raised no error. Then the generation counter of \<open>g0\<close> is 0 and that of \<open>g\<close> is not
  negative; from \<open>g\<close>, \<^verbatim>\<open>update_grid\<close> succeeds and adds exactly 1,
  \<^verbatim>\<open>randomize_grid\<close> and \<^verbatim>\<open>clear_grid\<close> succeed and set it to 0 whatever it
  was, a click succeeds and leaves it unchanged, and seeding a glider or a blinker
  leaves it unchanged whenever it returns.
\<close>

theorem generation_counter:
  assumes "init w h cs = Inr g0" and "apply_operations rnd g0 ops = Inr g"
  shows "generation g0 = 0 \<and> 0 \<le> generation g \<and>
     (\<exists>g'. update_grid g = Inr g' \<and> generation g' = generation g + 1) \<and>
     (\<exists>g'. randomize_grid rnd' density g = Inr g' \<and> generation g' = 0) \<and>
     (\<exists>g'. clear_grid g = Inr g' \<and> generation g' = 0) \<and>
     (\<exists>g'. handle_mouse_click g pos = Inr g' \<and> generation g' = generation g) \<and>
     (\<forall>g'. create_glider g start_row start_col = Inr g' \<longrightarrow> generation g' = generation g) \<and>
     (\<forall>g'. create_blinker g start_row start_col = Inr g' \<longrightarrow> generation g' = generation g)"
proof -
  have g0: "wf_game g0" "generation g0 = 0" using wf_init[OF assms(1)] by simp_all
  then have g: "wf_game g" "0 \<le> generation g"
    using apply_operations_wf[OF g0(1) _ assms(2)] by simp_all
  have step: "\<exists>g'. update_grid g = Inr g' \<and> generation g' = generation g + 1"
    using update_grid_spec[OF g(1)] by simp
  have rand: "\<exists>g'. randomize_grid rnd' density g = Inr g' \<and> generation g' = 0"
    using randomize_grid_result[OF g(1), of rnd' density] by blast
  have clear: "\<exists>g'. clear_grid g = Inr g' \<and> generation g' = 0"
    using clear_grid_result[OF g(1)] by simp
  have click: "\<exists>g'. handle_mouse_click g pos = Inr g' \<and> generation g' = generation g"
    using handle_mouse_click_total[OF g(1), of pos] wf_handle_mouse_click[OF g(1), of pos]
    by blast
  have glider: "\<forall>g'. create_glider g start_row start_col = Inr g' \<longrightarrow>
      generation g' = generation g"
    using create_glider_result[OF g(1)] by blast
  have blinker: "\<forall>g'. create_blinker g start_row start_col = Inr g' \<longrightarrow>
      generation g' = generation g"
    using create_blinker_result[OF g(1)] by blast
  from g0(2) g(2) step rand clear click glider blinker show ?thesis by blast
qed

theorem generation_counter_witness:
  "init 10 10 10 = Inr (example 10 [[0]]) \<and>
   apply_operations (\<lambda>k. 0) (example 10 [[0]]) [Step, Click (3, 4), Step] =
     Inr ((example 10 [[0]])\<lparr>generation := 2, stdout := [(0, 0, 1)]\<rparr>) \<and>
   generation (example 10 [[0]]) = 0 \<and>
   (\<exists>g'. update_grid ((example 10 [[0]])\<lparr>generation := 2, stdout := [(0, 0, 1)]\<rparr>) = Inr g' \<and>
      generation g' = 3) \<and>
   (\<exists>g'. clear_grid ((example 10 [[0]])\<lparr>generation := 2, stdout := [(0, 0, 1)]\<rparr>) = Inr g' \<and>
      generation g' = 0) \<and>
   (\<exists>g'. create_blinker ((example 10 [[0]])\<lparr>generation := 2, stdout := [(0, 0, 1)]\<rparr>) 0 0
      = Inr g' \<and> generation g' = 2)"
proof -
  let ?ga = "example 10 [[0]]"
  let ?gd = "?ga\<lparr>generation := 2, stdout := [(0, 0, 1)]\<rparr>"
  have i: "init 10 10 10 = Inr ?ga"
    by (simp add: init_result example_def)
  have wf0: "wf_game ?ga"
    by (simp add: example_def wf_game_def shape_ok_def cells_ok_def)
  have dims: "rows ?ga = 1" "cols ?ga = 1" "grid ?ga = [[0]]" "generation ?ga = 0"
    "cell_size ?ga = 10" "stdout ?ga = []"
    by (simp_all add: example_def)
  have next0: "spec_next_grid ?ga = [[0]]"
    by (simp add: spec_next_grid_def spec_next_cell_def spec_neighbor_count_def
        neighbor_offsets_def range_def np_get_def np_index_def example_def upto.simps)
  have s1: "update_grid ?ga = Inr (?ga\<lparr>generation := 1\<rparr>)"
    unfolding update_grid_spec[OF wf0] next0 by (simp add: example_def)
  let ?gb = "?ga\<lparr>generation := 1\<rparr>"
  have c: "handle_mouse_click ?gb (3, 4) = Inr (?gb\<lparr>grid := [[1]], stdout := [(0, 0, 1)]\<rparr>)"
    by (simp add: handle_mouse_click_def py_floordiv_def np_get_def np_set_def np_index_def
        example_def)
  let ?gc = "?gb\<lparr>grid := [[1]], stdout := [(0, 0, 1)]\<rparr>"
  have wf2: "wf_game ?gc"
    by (simp add: example_def wf_game_def shape_ok_def cells_ok_def)
  have next2: "spec_next_grid ?gc = [[0]]"
    by (simp add: spec_next_grid_def spec_next_cell_def spec_neighbor_count_def
        neighbor_offsets_def range_def np_get_def np_index_def example_def upto.simps)
  have s2: "update_grid ?gc = Inr ?gd"
    unfolding update_grid_spec[OF wf2] next2 by (simp add: example_def)
  have run: "apply_operations (\<lambda>k. 0) ?ga [Step, Click (3, 4), Step] = Inr ?gd"
    by (simp add: s1 c s2)
  have b: "\<exists>g'. create_blinker ?gd 0 0 = Inr g' \<and> generation g' = 2"
    by (simp add: create_blinker_def blinker_def np_set_def np_index_def example_def)
  from generation_counter[OF i run, of undefined 0 "(0, 0)" 0 0] i run dims(4) b
  show ?thesis by auto
qed

section \<open>Construction\<close>

text \<open>
  Claim C8, as the code has it. \<^verbatim>\<open>__init__\<close> has no check of its own on \<open>rows\<close> and
  \<open>cols\<close>. For a width and a height that are not negative, it fails with
  ZeroDivisionError when the cell size is 0 and with ValueError, from the allocation
  of the array, when \<open>height // cell_size\<close> or \<open>width // cell_size\<close> is negative; in
  every other case, also when one of the two quotients is 0, it returns an object
  whose grid has \<open>rows\<close> times \<open>cols\<close> dead cells. One of the two examples that follow
  is a construction with the cell size larger than the surface: it succeeds with an
  empty grid.
\<close>

theorem init_outcome:
  assumes "0 \<le> w" and "0 \<le> h"
  shows "init w h cs =
     (if cs = 0 then Inl ZeroDivisionError
      else if h div cs < 0 \<or> w div cs < 0 then Inl ValueError
      else Inr \<lparr>width = w, height = h, cell_size = cs, cols = w div cs, rows = h div cs,
                grid = replicate (nat (h div cs)) (replicate (nat (w div cs)) 0),
                running = True, paused = False, generation = 0, rand_calls = 0,
                stdout = []\<rparr>)"
  using assms by (simp add: init_result)

theorem init_zero_area_counterexample:
  "init 5 5 10 =
     Inr \<lparr>width = 5, height = 5, cell_size = 10, cols = 0, rows = 0, grid = [],
          running = True, paused = False, generation = 0, rand_calls = 0, stdout = []\<rparr>"
  by (simp add: init_def py_floordiv_def set_mode_def np_zeros_def)

theorem init_outcome_witness:
  "(0::int) \<le> 800 \<and> (0::int) \<le> 5 \<and> (0::int) \<le> 600 \<and>
   init 800 5 10 =
     Inr \<lparr>width = 800, height = 5, cell_size = 10, cols = 80, rows = 0, grid = [],
          running = True, paused = False, generation = 0, rand_calls = 0, stdout = []\<rparr> \<and>
   init 800 600 0 = Inl ZeroDivisionError \<and>
   init 800 600 (-10) = Inl ValueError"
  using init_outcome [of 800 5 10] init_outcome [of 800 600 0] init_outcome [of 800 600 "-10"]
  by simp

section \<open>Frames of the main loop\<close>













section \<open>Pattern seeding\<close>

lemma apply_writes_Nil: "apply_writes [] a = a"
  by (simp add: apply_writes_def)

lemma apply_writes_Cons:
  "apply_writes (((r, c), v) # ws) a = apply_writes ws (a[r := (a ! r)[c := v]])"
  by (simp add: apply_writes_def)

lemma apply_writes_append: "apply_writes (xs @ ys) a = apply_writes ys (apply_writes xs a)"
  by (simp add: apply_writes_def)

lemma np_index_wrap:
  "- int n \<le> x \<Longrightarrow> x < int n \<Longrightarrow> np_index n x = Inr (wrap_index (int n) x)"
  by (simp add: np_index_def wrap_index_def)

lemma wrap_index_lt: "- n \<le> x \<Longrightarrow> x < n \<Longrightarrow> int (wrap_index n x) < n"
  by (simp add: wrap_index_def)

lemma np_set_wrap:
  assumes "shape_ok a r c" and "- r \<le> x" and "x < r" and "- c \<le> y" and "y < c"
  shows "np_set a x y v =
     Inr (a[wrap_index r x := (a ! wrap_index r x)[wrap_index c y := v]])"
proof -
  have la: "int (length a) = r" using assms(1) by (rule shape_ok_length)
  have wl: "wrap_index r x < length a"
    using wrap_index_lt[OF assms(2,3)] la by linarith
  have lr: "int (length (a ! wrap_index r x)) = c"
    using assms(1) wl by (rule shape_ok_nth)
  have i1: "np_index (length a) x = Inr (wrap_index r x)"
    using np_index_wrap[of "length a" x] assms(2,3) la by simp
  have i2: "np_index (length (a ! wrap_index r x)) y = Inr (wrap_index c y)"
    using np_index_wrap[of "length (a ! wrap_index r x)" y] assms(4,5) lr by simp
  show ?thesis by (simp add: np_set_def i1 i2)
qed

lemma seed_cols_writes:
  assumes "shape_ok (grid g) (rows g) (cols g)"
    and "- rows g \<le> sr + int i" and "- cols g \<le> sc + int n"
  shows "seed_cols g sr sc (int i) (int n) cells =
     Inr (g\<lparr>grid := apply_writes (spec_row_writes g sr sc i n cells) (grid g)\<rparr>)"
  using assms
proof (induction cells arbitrary: g n)
  case Nil
  then show ?case by (simp add: spec_row_writes_def apply_writes_Nil)
next
  case (Cons cell cells)
  have n1: "int n + 1 = int (Suc n)" by simp
  show ?case
  proof (cases "sr + int i < rows g \<and> sc + int n < cols g")
    case True
    let ?a = "(grid g)[wrap_index (rows g) (sr + int i) :=
        (grid g ! wrap_index (rows g) (sr + int i))[wrap_index (cols g) (sc + int n) := cell]]"
    have s: "np_set (grid g) (sr + int i) (sc + int n) cell = Inr ?a"
      using Cons.prems True by (intro np_set_wrap) simp_all
    have sh: "shape_ok (grid (g\<lparr>grid := ?a\<rparr>)) (rows (g\<lparr>grid := ?a\<rparr>)) (cols (g\<lparr>grid := ?a\<rparr>))"
      using Cons.prems(1) by (simp add: shape_ok_update_nat)
    have ih: "seed_cols (g\<lparr>grid := ?a\<rparr>) sr sc (int i) (int (Suc n)) cells =
       Inr (g\<lparr>grid := ?a\<rparr>\<lparr>grid := apply_writes
          (spec_row_writes (g\<lparr>grid := ?a\<rparr>) sr sc i (Suc n) cells) (grid (g\<lparr>grid := ?a\<rparr>))\<rparr>)"
      using Cons.prems(2,3) by (intro Cons.IH[OF sh]) simp_all
    have w: "spec_row_writes g sr sc i n (cell # cells) =
       ((wrap_index (rows g) (sr + int i), wrap_index (cols g) (sc + int n)), cell) #
         spec_row_writes g sr sc i (Suc n) cells"
      using True by (simp add: spec_row_writes_def)
    have same: "spec_row_writes (g\<lparr>grid := ?a\<rparr>) sr sc i (Suc n) cells =
       spec_row_writes g sr sc i (Suc n) cells"
      by (simp add: spec_row_writes_def cong: if_cong)
    show ?thesis
      using True s ih unfolding w apply_writes_Cons same
      by (simp add: n1 del: of_nat_Suc)
  next
    case False
    have ih: "seed_cols g sr sc (int i) (int (Suc n)) cells =
       Inr (g\<lparr>grid := apply_writes (spec_row_writes g sr sc i (Suc n) cells) (grid g)\<rparr>)"
      using Cons.prems by (intro Cons.IH) simp_all
    have w: "spec_row_writes g sr sc i n (cell # cells) = spec_row_writes g sr sc i (Suc n) cells"
      using False by (simp add: spec_row_writes_def)
    show ?thesis
      using False ih unfolding w by (auto simp: n1 simp del: of_nat_Suc)
  qed
qed

lemma shape_ok_apply_writes: "shape_ok a r c \<Longrightarrow> shape_ok (apply_writes ws a) r c"
proof (induction ws arbitrary: a)
  case Nil
  then show ?case by (simp add: apply_writes_Nil)
next
  case (Cons w ws)
  obtain p q v where w: "w = ((p, q), v)" by (metis prod.collapse)
  show ?case unfolding w apply_writes_Cons
    using Cons.prems by (intro Cons.IH shape_ok_update_nat)
qed

lemma seed_rows_writes:
  assumes "shape_ok (grid g) (rows g) (cols g)"
    and "- rows g \<le> sr + int n" and "- cols g \<le> sc"
  shows "seed_rows g sr sc (int n) template =
     Inr (g\<lparr>grid := apply_writes (spec_writes g n template sr sc) (grid g)\<rparr>)"
  using assms
proof (induction template arbitrary: g n)
  case Nil
  then show ?case by (simp add: spec_writes_def apply_writes_Nil)
next
  case (Cons row rest)
  let ?a = "apply_writes (spec_row_writes g sr sc n 0 row) (grid g)"
  have n1: "int n + 1 = int (Suc n)" by simp
  have c: "seed_cols g sr sc (int n) 0 row = Inr (g\<lparr>grid := ?a\<rparr>)"
    using seed_cols_writes[OF Cons.prems(1), of sr n sc 0 row] Cons.prems(2,3) by simp
  have sh: "shape_ok (grid (g\<lparr>grid := ?a\<rparr>)) (rows (g\<lparr>grid := ?a\<rparr>)) (cols (g\<lparr>grid := ?a\<rparr>))"
    using Cons.prems(1) by (simp add: shape_ok_apply_writes)
  have ih: "seed_rows (g\<lparr>grid := ?a\<rparr>) sr sc (int (Suc n)) rest =
     Inr (g\<lparr>grid := ?a\<rparr>\<lparr>grid := apply_writes (spec_writes (g\<lparr>grid := ?a\<rparr>) (Suc n) rest sr sc)
        (grid (g\<lparr>grid := ?a\<rparr>))\<rparr>)"
    using Cons.prems(2,3) by (intro Cons.IH[OF sh]) simp_all
  have same: "spec_writes (g\<lparr>grid := ?a\<rparr>) (Suc n) rest sr sc = spec_writes g (Suc n) rest sr sc"
    by (simp add: spec_writes_def spec_row_writes_def cong: if_cong)
  have w: "spec_writes g n (row # rest) sr sc =
     spec_row_writes g sr sc n 0 row @ spec_writes g (Suc n) rest sr sc"
    by (simp add: spec_writes_def)
  show ?case
    using c ih unfolding w apply_writes_append same
    by (simp add: n1 del: of_nat_Suc)
qed

lemma apply_writes_nth:
  assumes "r < length a" and "c < length (a ! r)"
  shows "apply_writes ws a ! r ! c =
     (case map_of (rev ws) (r, c) of None \<Rightarrow> a ! r ! c | Some v \<Rightarrow> v)"
  using assms
proof (induction ws arbitrary: a)
  case Nil
  then show ?case by (simp add: apply_writes_Nil)
next
  case (Cons w ws)
  obtain p q v where w: "w = ((p, q), v)" by (metis prod.collapse)
  let ?b = "a[p := (a ! p)[q := v]]"
  have lb: "r < length ?b" using Cons.prems(1) by simp
  have lr: "length (?b ! r) = length (a ! r)"
    using Cons.prems(1) by (cases "p = r") simp_all
  have old: "?b ! r ! c = (if (p, q) = (r, c) then v else a ! r ! c)"
    using Cons.prems by (cases "p = r") (auto simp: nth_list_update)
  have ih: "apply_writes ws ?b ! r ! c =
     (case map_of (rev ws) (r, c) of None \<Rightarrow> ?b ! r ! c | Some v \<Rightarrow> v)"
    using lb Cons.prems(2) lr by (intro Cons.IH) simp_all
  show ?case
    unfolding w apply_writes_Cons ih old
    by (auto simp: map_add_def split: option.splits)
qed

text \<open>
  Claim C10. Let the grid have the shape \<open>rows\<close> by \<open>cols\<close> and let the offsets be at
  least \<open>-rows\<close> and \<open>-cols\<close>. Then \<^verbatim>\<open>create_glider\<close> and \<^verbatim>\<open>create_blinker\<close>
  return without error, and the grid they leave is the old grid after the writes of
  \<open>spec_writes\<close>, in order: template cell \<open>(i, j)\<close> is written, with its value 0 or 1,
  iff \<open>start_row + i < rows\<close> and \<open>start_col + j < cols\<close>, and a negative row or column
  is counted from the end of the grid. After a list of writes a cell holds the value
  of the last write to it, or its old value when nothing was written to it. The
  body of the loops for one cell succeeds whenever that cell's row and column are
  at least \<open>-rows\<close> and \<open>-cols\<close>.
\<close>

theorem seeding_writes:
  assumes "shape_ok (grid g) (rows g) (cols g)"
    and "- rows g \<le> start_row" and "- cols g \<le> start_col"
  shows "create_glider g start_row start_col =
       Inr (g\<lparr>grid := apply_writes (spec_writes g 0 glider start_row start_col) (grid g)\<rparr>) \<and>
     create_blinker g start_row start_col =
       Inr (g\<lparr>grid := apply_writes (spec_writes g 0 blinker start_row start_col) (grid g)\<rparr>) \<and>
     (\<forall>ws r c. r < length (grid g) \<and> c < length (grid g ! r) \<longrightarrow>
        apply_writes ws (grid g) ! r ! c =
          (case map_of (rev ws) (r, c) of None \<Rightarrow> grid g ! r ! c | Some v \<Rightarrow> v)) \<and>
     (\<forall>sr sc i j cell. - rows g \<le> sr + int i \<and> - cols g \<le> sc + int j \<longrightarrow>
        seed_cols g sr sc (int i) (int j) [cell] =
          Inr (g\<lparr>grid := apply_writes (spec_row_writes g sr sc i j [cell]) (grid g)\<rparr>))"
proof -
  have a: "seed_rows g start_row start_col 0 template =
     Inr (g\<lparr>grid := apply_writes (spec_writes g 0 template start_row start_col) (grid g)\<rparr>)"
    for template
    using seed_rows_writes[OF assms(1), of start_row 0 start_col template] assms(2,3) by simp
  have b: "seed_cols g sr sc (int i) (int j) [cell] =
          Inr (g\<lparr>grid := apply_writes (spec_row_writes g sr sc i j [cell]) (grid g)\<rparr>)"
    if "- rows g \<le> sr + int i \<and> - cols g \<le> sc + int j" for sr sc i j cell
    using that by (intro seed_cols_writes[OF assms(1)]) simp_all
  have c: "\<forall>ws r c. r < length (grid g) \<and> c < length (grid g ! r) \<longrightarrow>
        apply_writes ws (grid g) ! r ! c =
          (case map_of (rev ws) (r, c) of None \<Rightarrow> grid g ! r ! c | Some v \<Rightarrow> v)"
    by (simp add: apply_writes_nth)
  from a[of glider] a[of blinker] b c show ?thesis
    unfolding create_glider_def create_blinker_def by blast
qed

theorem seeding_writes_witness:
  "shape_ok (grid (example 10 [[1, 1, 1], [1, 1, 1], [1, 1, 1], [1, 1, 1]])) 4 3 \<and>
   rows (example 10 [[1, 1, 1], [1, 1, 1], [1, 1, 1], [1, 1, 1]]) = 4 \<and>
   cols (example 10 [[1, 1, 1], [1, 1, 1], [1, 1, 1], [1, 1, 1]]) = 3 \<and>
   create_glider (example 10 [[1, 1, 1], [1, 1, 1], [1, 1, 1], [1, 1, 1]]) (- 1) (- 1) =
     Inr ((example 10 [[1, 1, 1], [1, 1, 1], [1, 1, 1], [1, 1, 1]])
            \<lparr>grid := [[0, 1, 0], [1, 1, 1], [1, 1, 1], [1, 0, 0]]\<rparr>) \<and>
   apply_writes
       (spec_writes (example 10 [[1, 1, 1], [1, 1, 1], [1, 1, 1], [1, 1, 1]]) 0 glider (- 1) (- 1))
       [[1, 1, 1], [1, 1, 1], [1, 1, 1], [1, 1, 1]] =
     [[0, 1, 0], [1, 1, 1], [1, 1, 1], [1, 0, 0]] \<and>
   create_glider (example 10 [[1, 1, 1], [1, 1, 1], [1, 1, 1], [1, 1, 1]]) 2 1 =
     Inr ((example 10 [[1, 1, 1], [1, 1, 1], [1, 1, 1], [1, 1, 1]])
            \<lparr>grid := [[1, 1, 1], [1, 1, 1], [1, 0, 1], [1, 0, 0]]\<rparr>)"
proof -
  let ?g = "example 10 [[1, 1, 1], [1, 1, 1], [1, 1, 1], [1, 1, 1]]"
  have sh: "shape_ok (grid ?g) (rows ?g) (cols ?g)"
    by (simp add: example_def shape_ok_def)
  have dims: "rows ?g = 4" "cols ?g = 3" "grid ?g = [[1, 1, 1], [1, 1, 1], [1, 1, 1], [1, 1, 1]]"
    by (simp_all add: example_def)
  have e1: "create_glider ?g (- 1) (- 1) =
     Inr (?g\<lparr>grid := [[0, 1, 0], [1, 1, 1], [1, 1, 1], [1, 0, 0]]\<rparr>)"
    by (simp add: create_glider_def glider_def np_set_def np_index_def example_def)
  have e2: "create_glider ?g 2 1 =
     Inr (?g\<lparr>grid := [[1, 1, 1], [1, 1, 1], [1, 0, 1], [1, 0, 0]]\<rparr>)"
    by (simp add: create_glider_def glider_def np_set_def np_index_def example_def)
  have "create_glider ?g (- 1) (- 1) =
       Inr (?g\<lparr>grid := apply_writes (spec_writes ?g 0 glider (- 1) (- 1)) (grid ?g)\<rparr>)"
    using seeding_writes[OF sh, of "- 1" "- 1"] dims(1,2) by simp
  with e1 have "grid (?g\<lparr>grid := apply_writes (spec_writes ?g 0 glider (- 1) (- 1)) (grid ?g)\<rparr>)
     = grid (?g\<lparr>grid := [[0, 1, 0], [1, 1, 1], [1, 1, 1], [1, 0, 0]]\<rparr>)"
    by simp
  then have w: "apply_writes (spec_writes ?g 0 glider (- 1) (- 1)) (grid ?g) =
     [[0, 1, 0], [1, 1, 1], [1, 1, 1], [1, 0, 0]]"
    by simp
  from sh dims e1 e2 w show ?thesis by simp
qed

section \<open>The glider\<close>

lemma mod_window:
  assumes "5 \<le> (R::int)" and "- 1 \<le> x" and "x \<le> R"
  shows "(1 \<le> x mod R \<and> x mod R \<le> 3) = (1 \<le> x \<and> x \<le> 3)"
    and "1 \<le> x \<and> x \<le> 3 \<longrightarrow> x mod R = x"
proof -
  consider "x = - 1" | "x = R" | "0 \<le> x \<and> x < R" using assms by linarith
  then have "(1 \<le> x mod R \<and> x mod R \<le> 3) = (1 \<le> x \<and> x \<le> 3) \<and>
    (1 \<le> x \<and> x \<le> 3 \<longrightarrow> x mod R = x)"
  proof cases
    case 1
    then show ?thesis using assms(1) by (simp add: zmod_minus1)
  next
    case 2
    then show ?thesis using assms(1) by simp
  next
    case 3
    then show ?thesis by simp
  qed
  then show "(1 \<le> x mod R \<and> x mod R \<le> 3) = (1 \<le> x \<and> x \<le> 3)"
    and "1 \<le> x \<and> x \<le> 3 \<longrightarrow> x mod R = x" by simp_all
qed

lemma mod_shift: "((i + d) mod R - r) mod R = ((i - r) mod R + d) mod (R::int)"
proof -
  have "((i + d) mod R - r) mod R = (i + d - r) mod R"
    by (simp add: mod_diff_left_eq)
  also have "\<dots> = (i - r + d) mod R"
    by (simp add: algebra_simps)
  also have "\<dots> = ((i - r) mod R + d) mod R"
    by (simp add: mod_add_left_eq)
  finally show ?thesis .
qed

lemma in_windowD:
  "in_window Q \<Longrightarrow> cells_of Q x y \<Longrightarrow> 1 \<le> x \<and> x \<le> 3 \<and> 1 \<le> y \<and> y \<le> 3"
  by (auto simp: in_window_def cells_of_def list_all_iff)

lemma offsets_bound:
  "(di, dj) \<in> set neighbor_offsets \<Longrightarrow> - 1 \<le> di \<and> di \<le> 1 \<and> - 1 \<le> dj \<and> dj \<le> 1"
  by (auto simp: neighbor_offsets_def)

lemma torus_plane:
  assumes "5 \<le> R" and "5 \<le> C" and "in_window Q"
    and "0 \<le> a" and "a < R" and "0 \<le> b" and "b < C"
    and "- 1 \<le> di \<and> di \<le> 1 \<and> - 1 \<le> dj \<and> dj \<le> 1"
  shows "cells_of Q ((a + di) mod R) ((b + dj) mod C) = cells_of Q (a + di) (b + dj)"
proof -
  from assms(8) have d: "- 1 \<le> di" "di \<le> 1" "- 1 \<le> dj" "dj \<le> 1"
    by simp_all
  have xa: "- 1 \<le> a + di" "a + di \<le> R" using assms(4,5) d by linarith+
  have xb: "- 1 \<le> b + dj" "b + dj \<le> C" using assms(6,7) d by linarith+
  note wa = mod_window[OF assms(1) xa] and wb = mod_window[OF assms(2) xb]
  show ?thesis
  proof (cases "1 \<le> a + di \<and> a + di \<le> 3 \<and> 1 \<le> b + dj \<and> b + dj \<le> 3")
    case True
    then show ?thesis using wa(2) wb(2) by simp
  next
    case False
    have "\<not> cells_of Q (a + di) (b + dj)"
      using False in_windowD[OF assms(3)] by blast
    moreover have "\<not> cells_of Q ((a + di) mod R) ((b + dj) mod C)"
      using False wa(1) wb(1) in_windowD[OF assms(3), of "(a + di) mod R" "(b + dj) mod C"]
      by blast
    ultimately show ?thesis by simp
  qed
qed

lemma torus_of_get:
  assumes "0 \<le> i" and "i < R" and "0 \<le> j" and "j < C"
  shows "np_get (torus_of q R C r c) i j =
     Inr (if q ((i - r) mod R) ((j - c) mod C) then 1 else 0)"
proof -
  have "np_get (torus_of q R C r c) i j = Inr (torus_of q R C r c ! nat i ! nat j)"
    using assms by (intro np_get_in) (simp_all add: torus_of_def length_range nth_range)
  then show ?thesis
    using assms by (simp add: torus_of_def length_range nth_range)
qed

lemma torus_count:
  assumes "5 \<le> R" and "5 \<le> C" and "in_window Q"
    and "rows g = R" and "cols g = C" and "grid g = torus_of (cells_of Q) R C r c"
  shows "spec_neighbor_count g i j =
     plane_count (cells_of Q) ((i - r) mod R) ((j - c) mod C)"
proof -
  have pos: "0 < R" "0 < C" using assms(1,2) by simp_all
  have "(np_get (grid g) ((i + di) mod rows g) ((j + dj) mod cols g) = Inr 1) =
      cells_of Q ((i - r) mod R + di) ((j - c) mod C + dj)"
    if "(di, dj) \<in> set neighbor_offsets" for di dj
  proof -
    have "np_get (grid g) ((i + di) mod R) ((j + dj) mod C) =
        Inr (if cells_of Q (((i + di) mod R - r) mod R) (((j + dj) mod C - c) mod C)
             then 1 else 0)"
      unfolding assms(6) using pos by (intro torus_of_get) simp_all
    moreover have "((i + di) mod R - r) mod R = ((i - r) mod R + di) mod R"
      by (rule mod_shift)
    moreover have "((j + dj) mod C - c) mod C = ((j - c) mod C + dj) mod C"
      by (rule mod_shift)
    moreover have "cells_of Q (((i - r) mod R + di) mod R) (((j - c) mod C + dj) mod C) =
        cells_of Q ((i - r) mod R + di) ((j - c) mod C + dj)"
      using assms(1-3) pos offsets_bound[OF that] by (intro torus_plane) simp_all
    ultimately show ?thesis by (simp add: assms(4,5))
  qed
  then have "filter (\<lambda>(di, dj).
       np_get (grid g) ((i + di) mod rows g) ((j + dj) mod cols g) = Inr 1) neighbor_offsets =
     filter (\<lambda>(di, dj). cells_of Q ((i - r) mod R + di) ((j - c) mod C + dj)) neighbor_offsets"
    by (intro filter_cong) auto
  then show ?thesis by (simp add: spec_neighbor_count_def plane_count_def)
qed

lemma torus_next:
  assumes "5 \<le> R" and "5 \<le> C" and "in_window Q"
    and "rows g = R" and "cols g = C" and "grid g = torus_of (cells_of Q) R C r c"
  shows "spec_next_grid g = torus_of (plane_next (cells_of Q)) R C r c"
proof -
  have cell: "spec_next_cell g i j =
      (if plane_next (cells_of Q) ((i - r) mod R) ((j - c) mod C) then 1 else 0)"
    if "0 \<le> i" "i < R" "0 \<le> j" "j < C" for i j
  proof -
    have "np_get (grid g) i j =
        Inr (if cells_of Q ((i - r) mod R) ((j - c) mod C) then 1 else 0)"
      unfolding assms(6) using that by (rule torus_of_get)
    then show ?thesis
      by (simp add: spec_next_cell_def torus_count[OF assms] plane_next_def)
  qed
  show ?thesis
    unfolding spec_next_grid_def torus_of_def assms(4,5)
    by (intro map_cong refl) (simp_all add: set_range cell)
qed

lemma plane_far:
  assumes "in_window Q" and "a < 0 \<or> 4 < a \<or> b < 0 \<or> 4 < b"
  shows "\<not> plane_next (cells_of Q) a b"
proof -
  have "\<not> cells_of Q (a + di) (b + dj)" if "(di, dj) \<in> set neighbor_offsets" for di dj
    using offsets_bound[OF that] in_windowD[OF assms(1), of "a + di" "b + dj"] assms(2)
    by linarith
  then have "filter (\<lambda>(di, dj). cells_of Q (a + di) (b + dj)) neighbor_offsets = []"
    by (auto simp: filter_empty_conv)
  then have "plane_count (cells_of Q) a b = 0"
    by (simp add: plane_count_def)
  moreover have "\<not> cells_of Q a b"
    using in_windowD[OF assms(1), of a b] assms(2) by linarith
  ultimately show ?thesis by (simp add: plane_next_def)
qed

lemma phase_step:
  assumes "in_window Q"
    and "list_all (\<lambda>(x, y). 0 \<le> x \<and> x \<le> 4 \<and> 0 \<le> y \<and> y \<le> 4) N"
    and "list_all (\<lambda>a. list_all (\<lambda>b. plane_next (cells_of Q) a b = cells_of N a b)
           [0, 1, 2, 3, 4]) [0, 1, 2, 3, 4]"
  shows "plane_next (cells_of Q) = cells_of N"
proof (intro ext)
  fix a b :: int
  show "plane_next (cells_of Q) a b = cells_of N a b"
  proof (cases "a < 0 \<or> 4 < a \<or> b < 0 \<or> 4 < b")
    case True
    have "\<not> cells_of N a b"
      using assms(2) True by (auto simp: cells_of_def list_all_iff)
    with plane_far[OF assms(1) True] show ?thesis by simp
  next
    case False
    then have "a \<in> set [0, 1, 2, 3, 4]" "b \<in> set [0, 1, 2, 3, 4]" by auto
    with assms(3) show ?thesis unfolding list_all_iff by blast
  qed
qed

lemma in_window_phases: "in_window phase0" "in_window phase1" "in_window phase2" "in_window phase3"
  by (simp_all add: in_window_def phase0_def phase1_def phase2_def phase3_def)

lemma step0: "plane_next (cells_of phase0) = cells_of (shift 1 0 phase1)"
  by (rule phase_step[OF in_window_phases(1)])
    (simp_all add: phase0_def phase1_def shift_def plane_next_def
      plane_count_def cells_of_def neighbor_offsets_def)

lemma step1: "plane_next (cells_of phase1) = cells_of phase2"
  by (rule phase_step[OF in_window_phases(2)])
    (simp_all add: phase1_def phase2_def plane_next_def
      plane_count_def cells_of_def neighbor_offsets_def)

lemma step2: "plane_next (cells_of phase2) = cells_of (shift 0 1 phase3)"
  by (rule phase_step[OF in_window_phases(3)])
    (simp_all add: phase2_def phase3_def shift_def plane_next_def
      plane_count_def cells_of_def neighbor_offsets_def)

lemma step3: "plane_next (cells_of phase3) = cells_of phase0"
  by (rule phase_step[OF in_window_phases(4)])
    (simp_all add: phase3_def phase0_def plane_next_def
      plane_count_def cells_of_def neighbor_offsets_def)

lemma cells_of_shift: "cells_of (shift s t Q) u v = cells_of Q (u - s) (v - t)"
  by (force simp: cells_of_def shift_def)

lemma shift_zero: "shift 0 0 Q = Q"
  by (simp add: shift_def)

lemma torus_rebase:
  assumes "5 \<le> R" and "5 \<le> C" and "in_window Q"
    and "- 1 \<le> s \<and> s \<le> 1 \<and> - 1 \<le> t \<and> t \<le> 1"
  shows "torus_of (cells_of (shift s t Q)) R C r c = torus_of (cells_of Q) R C (r + s) (c + t)"
proof -
  have "cells_of (shift s t Q) ((i - r) mod R) ((j - c) mod C) =
      cells_of Q ((i - (r + s)) mod R) ((j - (c + t)) mod C)" for i j
  proof -
    have pos: "0 < R" "0 < C" using assms(1,2) by simp_all
    have "cells_of Q (((i - r) mod R + - s) mod R) (((j - c) mod C + - t) mod C) =
        cells_of Q ((i - r) mod R + - s) ((j - c) mod C + - t)"
      using assms pos by (intro torus_plane) simp_all
    moreover have "((i - r) mod R + - s) mod R = (i - (r + s)) mod R"
      by (simp add: mod_diff_left_eq algebra_simps)
    moreover have "((j - c) mod C + - t) mod C = (j - (c + t)) mod C"
      by (simp add: mod_diff_left_eq algebra_simps)
    ultimately show ?thesis by (simp add: cells_of_shift)
  qed
  then show ?thesis by (simp add: torus_of_def)
qed

lemma glider_template:
  "pattern_at glider R C r0 c0 = torus_of (cells_of (shift (- 1) (- 1) phase0)) R C r0 c0"
proof -
  have "(if u < int (length glider) \<and> v < int (length (glider ! nat u))
         then glider ! nat u ! nat v else 0) =
        (if cells_of (shift (- 1) (- 1) phase0) u v then 1 else 0)"
    if "0 \<le> u" "0 \<le> v" for u v :: int
  proof -
    have u: "u = 0 \<or> u = 1 \<or> u = 2 \<or> 3 \<le> u" using that(1) by linarith
    have v: "v = 0 \<or> v = 1 \<or> v = 2 \<or> 3 \<le> v" using that(2) by linarith
    show ?thesis
      using u v by (auto simp: glider_def cells_of_def shift_def phase0_def)
  qed
  then have "(if (i - r0) mod R < int (length glider) \<and>
          (j - c0) mod C < int (length (glider ! nat ((i - r0) mod R)))
       then glider ! nat ((i - r0) mod R) ! nat ((j - c0) mod C) else 0) =
      (if cells_of (shift (- 1) (- 1) phase0) ((i - r0) mod R) ((j - c0) mod C) then 1 else 0)"
    if "i \<in> set (range R)" "j \<in> set (range C)" for i j
  proof -
    from that have "0 < R" "0 < C" by (auto simp: set_range)
    then have "0 \<le> (i - r0) mod R" "0 \<le> (j - c0) mod C" by simp_all
    then show ?thesis by (rule \<open>\<And>u v. 0 \<le> u \<Longrightarrow> 0 \<le> v \<Longrightarrow> _\<close>)
  qed
  then show ?thesis
    unfolding pattern_at_def torus_of_def by (intro map_cong refl) blast
qed

lemma glider_phase0:
  assumes "5 \<le> R" and "5 \<le> C"
  shows "pattern_at glider R C r0 c0 = torus_of (cells_of phase0) R C (r0 - 1) (c0 - 1)"
  using torus_rebase[OF assms in_window_phases(1), of "- 1" "- 1" r0 c0]
  by (simp add: glider_template)

lemma phase_update:
  assumes "wf_game g" and "5 \<le> rows g" and "5 \<le> cols g"
    and "in_window Q" and "in_window Q'"
    and "plane_next (cells_of Q) = cells_of (shift s t Q')"
    and "- 1 \<le> s \<and> s \<le> 1 \<and> - 1 \<le> t \<and> t \<le> 1"
    and "grid g = torus_of (cells_of Q) (rows g) (cols g) r c"
  shows "update_grid g =
     Inr (g\<lparr>grid := torus_of (cells_of Q') (rows g) (cols g) (r + s) (c + t),
            generation := generation g + 1\<rparr>)"
proof -
  have "spec_next_grid g = torus_of (plane_next (cells_of Q)) (rows g) (cols g) r c"
    using assms(2,3,4) refl refl assms(8) by (rule torus_next)
  also have "\<dots> = torus_of (cells_of Q') (rows g) (cols g) (r + s) (c + t)"
    unfolding assms(6) using assms(2,3,5,7) by (rule torus_rebase)
  finally show ?thesis by (simp add: update_grid_spec[OF assms(1)])
qed

text \<open>
  Claim C9, as the code has it. On a well-formed object with at least 5 rows and 5
  columns whose grid holds the glider template at \<open>(r0, c0)\<close>, rows and columns taken
  modulo \<open>rows\<close> and \<open>cols\<close>, and no other alive cell, four calls of \<^verbatim>\<open>update_grid\<close>
  succeed and leave the grid that holds the template at \<open>(r0 + 1, c0 + 1)\<close>, again
  modulo \<open>rows\<close> and \<open>cols\<close>, and no other alive cell; the generation counter has
  grown by 4. On a smaller torus the glider meets itself: on the grid of 3 rows and
  3 columns, the second example below, every cell is dead after four steps.
\<close>

theorem glider_translates:
  assumes "wf_game g" and "5 \<le> rows g" and "5 \<le> cols g"
    and "grid g = pattern_at glider (rows g) (cols g) r0 c0"
  shows "apply_operations rnd g [Step, Step, Step, Step] =
     Inr (g\<lparr>grid := pattern_at glider (rows g) (cols g) (r0 + 1) (c0 + 1),
            generation := generation g + 4\<rparr>)"
proof -
  let ?R = "rows g" and ?C = "cols g"
  let ?ga = "g\<lparr>grid := torus_of (cells_of phase1) ?R ?C r0 (c0 - 1),
               generation := generation g + 1\<rparr>"
  let ?gb = "g\<lparr>grid := torus_of (cells_of phase2) ?R ?C r0 (c0 - 1),
               generation := generation g + 2\<rparr>"
  let ?gc = "g\<lparr>grid := torus_of (cells_of phase3) ?R ?C r0 c0,
               generation := generation g + 3\<rparr>"
  let ?gd = "g\<lparr>grid := torus_of (cells_of phase0) ?R ?C r0 c0,
               generation := generation g + 4\<rparr>"
  have start: "grid g = torus_of (cells_of phase0) ?R ?C (r0 - 1) (c0 - 1)"
    using assms(4) glider_phase0[OF assms(2,3)] by simp
  have ua: "update_grid g = Inr ?ga"
    using phase_update[OF assms(1-3) in_window_phases(1,2) step0 _ start] by simp
  have wa: "wf_game ?ga" using wf_update_grid[OF assms(1) ua] by simp
  have ub: "update_grid ?ga = Inr ?gb"
    using phase_update[OF wa _ _ in_window_phases(2,3), of 0 0 r0 "c0 - 1"] assms(2,3) step1
    by (simp add: shift_zero)
  have wb: "wf_game ?gb" using wf_update_grid[OF wa ub] by simp
  have uc: "update_grid ?gb = Inr ?gc"
    using phase_update[OF wb _ _ in_window_phases(3,4) step2, of r0 "c0 - 1"] assms(2,3)
    by simp
  have wc: "wf_game ?gc" using wf_update_grid[OF wb uc] by simp
  have ud: "update_grid ?gc = Inr ?gd"
    using phase_update[OF wc _ _ in_window_phases(4,1), of 0 0 r0 c0] assms(2,3) step3
    by (simp add: shift_zero)
  have fin: "torus_of (cells_of phase0) ?R ?C r0 c0 = pattern_at glider ?R ?C (r0 + 1) (c0 + 1)"
    using glider_phase0[OF assms(2,3), of "r0 + 1" "c0 + 1"] by simp
  show ?thesis
    by (simp add: ua ub uc ud fin)
qed

theorem glider_translates_witness:
  "wf_game (example 10
      [[1, 0, 0, 1, 1], [0, 0, 0, 0, 0], [0, 0, 0, 0, 0], [0, 0, 0, 0, 1], [1, 0, 0, 0, 0]]) \<and>
   rows (example 10
      [[1, 0, 0, 1, 1], [0, 0, 0, 0, 0], [0, 0, 0, 0, 0], [0, 0, 0, 0, 1], [1, 0, 0, 0, 0]]) = 5 \<and>
   cols (example 10
      [[1, 0, 0, 1, 1], [0, 0, 0, 0, 0], [0, 0, 0, 0, 0], [0, 0, 0, 0, 1], [1, 0, 0, 0, 0]]) = 5 \<and>
   pattern_at glider 5 5 3 3 =
      [[1, 0, 0, 1, 1], [0, 0, 0, 0, 0], [0, 0, 0, 0, 0], [0, 0, 0, 0, 1], [1, 0, 0, 0, 0]] \<and>
   pattern_at glider 5 5 4 4 =
      [[0, 1, 0, 0, 0], [1, 1, 0, 0, 1], [0, 0, 0, 0, 0], [0, 0, 0, 0, 0], [1, 0, 0, 0, 0]] \<and>
   apply_operations (\<lambda>k. 0) (example 10
      [[1, 0, 0, 1, 1], [0, 0, 0, 0, 0], [0, 0, 0, 0, 0], [0, 0, 0, 0, 1], [1, 0, 0, 0, 0]])
      [Step, Step, Step, Step] =
     Inr ((example 10
      [[1, 0, 0, 1, 1], [0, 0, 0, 0, 0], [0, 0, 0, 0, 0], [0, 0, 0, 0, 1], [1, 0, 0, 0, 0]])
        \<lparr>grid := [[0, 1, 0, 0, 0], [1, 1, 0, 0, 1], [0, 0, 0, 0, 0], [0, 0, 0, 0, 0],
                  [1, 0, 0, 0, 0]],
         generation := 4\<rparr>)"
proof -
  let ?a = "[[1, 0, 0, 1, 1], [0, 0, 0, 0, 0], [0, 0, 0, 0, 0], [0, 0, 0, 0, 1],
             [1, 0, 0, 0, 0 :: int]]"
  let ?g = "example 10 ?a"
  have wf: "wf_game ?g"
    by (simp add: example_def wf_game_def shape_ok_def cells_ok_def)
  have dims: "rows ?g = 5" "cols ?g = 5" "grid ?g = ?a" "generation ?g = 0"
    by (simp_all add: example_def)
  have r5: "range 5 = [0, 1, 2, 3, 4]"
    by (simp add: range_def upto.simps)
  have p3: "pattern_at glider 5 5 3 3 = ?a"
    by (simp add: pattern_at_def r5 glider_def)
  have p4: "pattern_at glider 5 5 4 4 =
      [[0, 1, 0, 0, 0], [1, 1, 0, 0, 1], [0, 0, 0, 0, 0], [0, 0, 0, 0, 0], [1, 0, 0, 0, 0]]"
    by (simp add: pattern_at_def r5 glider_def)
  from glider_translates[OF wf, of 3 3 "\<lambda>k. 0"] dims p3 p4 wf
  show ?thesis by simp
qed

theorem glider_small_grid_counterexample:
  "wf_game (example 10 glider) \<and>
   grid (example 10 glider) = pattern_at glider 3 3 0 0 \<and>
   pattern_at glider 3 3 1 1 = [[1, 1, 1], [0, 0, 1], [1, 0, 0]] \<and>
   apply_operations (\<lambda>k. 0) (example 10 glider) [Step, Step, Step, Step] =
     Inr ((example 10 glider)\<lparr>grid := [[0, 0, 0], [0, 0, 0], [0, 0, 0]], generation := 4\<rparr>)"
proof -
  let ?g = "example 10 glider"
  let ?z = "[[0, 0, 0], [0, 0, 0], [0, 0, 0 :: int]]"
  have r3: "range 3 = [0, 1, 2]"
    by (simp add: range_def upto.simps)
  have wf: "wf_game ?g"
    by (simp add: example_def glider_def wf_game_def shape_ok_def cells_ok_def)
  have p0: "grid ?g = pattern_at glider 3 3 0 0"
    by (simp add: pattern_at_def r3 glider_def example_def)
  have p1: "pattern_at glider 3 3 1 1 = [[1, 1, 1], [0, 0, 1], [1, 0, 0]]"
    by (simp add: pattern_at_def r3 glider_def)
  have n0: "spec_next_grid ?g = ?z"
    by (simp add: spec_next_grid_def spec_next_cell_def spec_neighbor_count_def
        neighbor_offsets_def r3 np_get_def np_index_def example_def glider_def)
  have wz: "wf_game (?g\<lparr>grid := ?z, generation := n\<rparr>)" for n
    by (simp add: example_def glider_def wf_game_def shape_ok_def cells_ok_def)
  have nz: "spec_next_grid (?g\<lparr>grid := ?z, generation := n\<rparr>) = ?z" for n
    by (simp add: spec_next_grid_def spec_next_cell_def spec_neighbor_count_def
        neighbor_offsets_def r3 np_get_def np_index_def example_def glider_def)
  have g0: "generation ?g = 0" by (simp add: example_def Let_def)
  have u0: "update_grid ?g = Inr (?g\<lparr>grid := ?z, generation := 1\<rparr>)"
    by (simp add: update_grid_spec[OF wf] n0 g0)
  have uz: "update_grid (?g\<lparr>grid := ?z, generation := n\<rparr>) =
      Inr (?g\<lparr>grid := ?z, generation := n + 1\<rparr>)" for n
    by (simp add: update_grid_spec[OF wz] nz)
  have "apply_operations (\<lambda>k. 0) ?g [Step, Step, Step, Step] =
     Inr (?g\<lparr>grid := ?z, generation := 4\<rparr>)"
    by (simp add: u0 uz)
  with wf p0 p1 show ?thesis by simp
qed

end
